theory Spec2Isabelle
  imports Main "HOL-Library.Multiset"
begin

section \<open>Values, errors and configuration\<close>

text \<open>
  The log generator of \<^verbatim>\<open>src/generate_log.py\<close> works on Python lists whose entries are
  either integers (tiles) or strings (call notations, riichi-tagged discards); \<open>PNone\<close> is
  Python's \<open>None\<close>, the initial value of the local \<open>call_notation\<close>.  Exceptions
  of the source are the left summand of a sum type.
\<close>

datatype py_val = PInt int | PStr string | PNone

datatype error = ValueError string | IndexError | KeyError | TypeError

text \<open>The four relative positions, the fixed keys of the dictionaries of the source.\<close>

datatype rel_pos = HERO | SHIMO | TOIMEN | KAMI

text \<open>
  The module-level configuration variables that the modelled functions read.  \<open>RULE\<close> and
  the per-position entries of \<open>OTHER_PLAYERS_ACTIONS\<close> are dictionaries with string keys;
  \<open>DRAWS\<close> always has the four relative positions as its keys.
\<close>

record config =
  RULE :: "string \<rightharpoonup> py_val"
  DORA_INDICATOR :: "int list"
  HERO_SEAT :: string
  HERO_HAND :: "int list"
  HERO_LAST_DRAW :: int
  HERO_LAST_DISCARD :: int
  HERO_LAST_DISCARD_TURN :: int
  HERO_LAST_ACTION :: string
  HERO_CALL_TILE :: int
  HERO_CHI_TILES :: "int list"
  HERO_PON_SOURCE :: string
  HERO_KAN_SOURCE :: string
  OTHER_PLAYERS_ACTIONS :: "rel_pos \<rightharpoonup> (string \<rightharpoonup> int)"
  DRAWS :: "rel_pos \<Rightarrow> py_val list"

subsection \<open>Python builtins used by the source\<close>

text \<open>\<open>str\<close> on an integer: the decimal digits, with a leading minus sign when negative.\<close>

definition digit_char :: "nat \<Rightarrow> char" where
  "digit_char d = ''0123456789'' ! d"

fun str_nat :: "nat \<Rightarrow> string" where
  "str_nat n = (if n < 10 then [digit_char n] else str_nat (n div 10) @ [digit_char (n mod 10)])"

declare str_nat.simps [simp del]

definition str_int :: "int \<Rightarrow> string" where
  "str_int i = (if i < 0 then ''-'' @ str_nat (nat (- i)) else str_nat (nat i))"

text \<open>\<open>list.index\<close>: the first position of an element, \<open>ValueError\<close> when it is absent.\<close>

fun list_index :: "'a list \<Rightarrow> 'a \<Rightarrow> error + nat" where
  "list_index [] x = Inl (ValueError ''is not in list'')"
| "list_index (y # ys) x =
     (if y = x then Inr 0
      else (case list_index ys x of Inl e \<Rightarrow> Inl e | Inr i \<Rightarrow> Inr (Suc i)))"

definition seats :: "string list" where
  "seats = [''EAST'', ''SOUTH'', ''WEST'', ''NORTH'']"

section \<open>Score changes\<close>

text \<open>The loop \<open>for i in range(4)\<close> of \<open>calculate_score_changes\<close>.\<close>

fun score_loop :: "nat \<Rightarrow> nat \<Rightarrow> nat list \<Rightarrow> int list \<Rightarrow> int list" where
  "score_loop shimo_idx dealer_idx [] changes = changes"
| "score_loop shimo_idx dealer_idx (i # rest) changes =
     score_loop shimo_idx dealer_idx rest
       (if i = shimo_idx then changes
        else if i = dealer_idx then changes[i := - 48000]
        else changes[i := - 24000])"

definition calculate_score_changes :: "config \<Rightarrow> error + int list" where
  "calculate_score_changes cfg =
     (case list_index seats (HERO_SEAT cfg) of
        Inl e \<Rightarrow> Inl e
      | Inr hero_idx \<Rightarrow>
          (let shimo_idx = (hero_idx + 1) mod 4;
               dealer_idx = 0
           in if shimo_idx = dealer_idx then Inr [144000, - 48000, - 48000, - 48000]
              else Inr (score_loop shimo_idx dealer_idx [0..<4]
                          ([0, 0, 0, 0][shimo_idx := 96000]))))"

section \<open>Call notation\<close>

text \<open>The loop of the \<open>CHI\<close> branch over the sorted tiles, \<open>result\<close> being the accumulator.\<close>

fun chi_loop :: "int \<Rightarrow> int list \<Rightarrow> string \<Rightarrow> string" where
  "chi_loop tile [] result = result"
| "chi_loop tile (tt # rest) result =
     chi_loop tile rest
       (if tt = tile then result @ ''c'' @ str_int tt else result @ str_int tt)"

text \<open>
  \<open>generate_call_notation(action, tile, source=None, chi_tiles=None)\<close>.  The optional
  arguments default to \<open>None\<close>; concatenating \<open>None\<close> with a list is a \<open>TypeError\<close>.
\<close>

definition generate_call_notation ::
  "string \<Rightarrow> int \<Rightarrow> string option \<Rightarrow> int list option \<Rightarrow> error + string" where
  "generate_call_notation action tile source chi_tiles =
     (let t = str_int tile in
      if action = ''CHI'' then
        (case chi_tiles of
           None \<Rightarrow> Inl TypeError
         | Some ct \<Rightarrow> Inr (chi_loop tile (sort (ct @ [tile])) ''''))
      else if action = ''PON'' then
        (if source = Some ''KAMI'' then Inr (''p'' @ t @ t @ t)
         else if source = Some ''TOIMEN'' then Inr (t @ ''p'' @ t @ t)
         else Inr (t @ t @ ''p'' @ t))
      else if action = ''KAN'' then
        (if source = Some ''KAMI'' then Inr (''m'' @ t @ t @ t @ t)
         else if source = Some ''TOIMEN'' then Inr (t @ ''m'' @ t @ t @ t)
         else Inr (t @ t @ t @ ''m'' @ t))
      else if action = ''ANKAN'' then Inr (t @ t @ t @ ''a'' @ t)
      else Inr t)"

section \<open>Random draw generation\<close>

subsection \<open>The tile pool\<close>

text \<open>Four copies of every suited tile (ranks 1 to 9 of three suits), then of every honor.\<close>

definition initial_pool :: "int list" where
  "initial_pool =
     concat (map (\<lambda>suit. concat (map (\<lambda>num. replicate 4 (suit + num)) [1..9])) [10, 20, 30])
     @ concat (map (\<lambda>honor. replicate 4 honor) [41..47])"

text \<open>\<open>if normal in pool: pool.remove(normal); pool.append(red)\<close> for each pair.\<close>

fun replace_red_fives :: "(int \<times> int) list \<Rightarrow> int list \<Rightarrow> int list" where
  "replace_red_fives [] pool = pool"
| "replace_red_fives ((normal, red) # rest) pool =
     replace_red_fives rest (if normal \<in> set pool then remove1 normal pool @ [red] else pool)"

text \<open>\<open>for tile in tiles: if tile in pool: pool.remove(tile)\<close>.\<close>

fun remove_tiles :: "int list \<Rightarrow> int list \<Rightarrow> int list" where
  "remove_tiles [] pool = pool"
| "remove_tiles (tile # rest) pool =
     remove_tiles rest (if tile \<in> set pool then remove1 tile pool else pool)"

text \<open>The pool of \<open>generate_random_draws\<close> as it stands when the drawing starts.\<close>

definition build_pool :: "config \<Rightarrow> int list" where
  "build_pool cfg =
     (let pool = initial_pool;
          pool = (if RULE cfg ''aka'' = Some (PInt 1)
                  then replace_red_fives [(15, 51), (25, 52), (35, 53)] pool else pool);
          pool = remove_tiles (HERO_HAND cfg) pool;
          pool = (if HERO_LAST_DRAW cfg \<in> set pool
                  then remove1 (HERO_LAST_DRAW cfg) pool else pool);
          pool = remove_tiles (DORA_INDICATOR cfg) pool
      in pool)"

subsection \<open>Turn restrictions\<close>

definition terminals :: "int set" where
  "terminals = {11, 19, 21, 29, 31, 39}"

definition honors :: "int set" where
  "honors = set [41..47]"

definition twos_eights :: "int set" where
  "twos_eights = {12, 18, 22, 28, 32, 38}"

definition threes_sevens :: "int set" where
  "threes_sevens = {13, 17, 23, 27, 33, 37}"

definition middle :: "int set" where
  "middle = {14, 15, 16, 24, 25, 26, 34, 35, 36, 51, 52, 53}"

definition get_allowed_tiles :: "int \<Rightarrow> int set" where
  "get_allowed_tiles turn =
     (let allowed = terminals \<union> honors;
          allowed = (if turn \<ge> 4 then allowed \<union> twos_eights else allowed);
          allowed = (if turn \<ge> 6 then allowed \<union> threes_sevens else allowed);
          allowed = (if turn \<ge> 7 then allowed \<union> middle else allowed)
      in allowed)"

subsection \<open>Drawing\<close>

text \<open>
  \<open>random.choice(seq)\<close> returns \<open>seq[k]\<close> for an index \<open>k\<close> the generator picks, and raises
  \<open>IndexError\<close> on an empty sequence.  The generator is a list of naturals consumed one per
  call (reduced modulo the length of the sequence); an exhausted list yields index 0.
\<close>

definition random_choice :: "nat list \<Rightarrow> 'a list \<Rightarrow> error + ('a \<times> nat list)" where
  "random_choice rng seq =
     (if seq = [] then Inl IndexError
      else (case rng of
              [] \<Rightarrow> Inr (seq ! 0, [])
            | r # rest \<Rightarrow> Inr (seq ! (r mod length seq), rest)))"

text \<open>\<open>list.remove\<close>: removes the first occurrence, \<open>ValueError\<close> when there is none.\<close>

definition list_remove :: "'a list \<Rightarrow> 'a \<Rightarrow> error + 'a list" where
  "list_remove xs x =
     (if x \<in> set xs then Inr (remove1 x xs) else Inl (ValueError ''x not in list''))"

definition draw_random_tile ::
  "int list \<Rightarrow> int \<Rightarrow> nat list \<Rightarrow> error + (int \<times> int list \<times> nat list)" where
  "draw_random_tile pool turn rng =
     (let allowed = get_allowed_tiles turn;
          available = filter (\<lambda>t. t \<in> allowed) pool;
          available = (if available = [] then pool else available)
      in if available = [] then Inl (ValueError ''No tiles left in pool!'')
         else (case random_choice rng available of
                 Inl e \<Rightarrow> Inl e
               | Inr (tile, rng') \<Rightarrow>
                   (case list_remove pool tile of
                      Inl e \<Rightarrow> Inl e
                    | Inr pool' \<Rightarrow> Inr (tile, pool', rng'))))"

subsection \<open>The rounds\<close>

text \<open>The local state of \<open>generate_random_draws\<close>, with the random generator.\<close>

record gen_state =
  st_pool :: "int list"
  st_draws :: "rel_pos \<Rightarrow> py_val list"
  st_player_turns :: "rel_pos \<Rightarrow> int"
  st_rng :: "nat list"

text \<open>The dictionary from absolute seat index to relative position.\<close>

definition abs_to_pos :: "nat \<Rightarrow> (nat \<rightharpoonup> rel_pos)" where
  "abs_to_pos hero_idx =
     [hero_idx \<mapsto> HERO,
      (hero_idx + 1) mod 4 \<mapsto> SHIMO,
      (hero_idx + 2) mod 4 \<mapsto> TOIMEN,
      (hero_idx + 3) mod 4 \<mapsto> KAMI]"

text \<open>The body of the inner loop: one draw opportunity of the seat \<open>seat_idx\<close>.\<close>

definition draw_step ::
  "config \<Rightarrow> int \<Rightarrow> (nat \<rightharpoonup> rel_pos) \<Rightarrow> nat \<Rightarrow> gen_state \<Rightarrow> error + gen_state" where
  "draw_step cfg n a2p seat_idx st =
     (case a2p seat_idx of
        None \<Rightarrow> Inl KeyError
      | Some pos \<Rightarrow>
          (let turn = st_player_turns st pos + 1;
               st = st\<lparr>st_player_turns := (st_player_turns st)(pos := turn)\<rparr>
           in if pos = HERO \<and> turn = n
              then Inr (st\<lparr>st_draws :=
                         (st_draws st)(HERO := st_draws st HERO @ [PInt (HERO_LAST_DRAW cfg)])\<rparr>)
              else (case draw_random_tile (st_pool st) turn (st_rng st) of
                      Inl e \<Rightarrow> Inl e
                    | Inr (tile, pool', rng') \<Rightarrow>
                        Inr (st\<lparr>st_pool := pool', st_rng := rng',
                                st_draws := (st_draws st)(pos := st_draws st pos @ [PInt tile])\<rparr>))))"

fun seat_loop ::
  "config \<Rightarrow> int \<Rightarrow> (nat \<rightharpoonup> rel_pos) \<Rightarrow> nat list \<Rightarrow> gen_state \<Rightarrow> error + gen_state" where
  "seat_loop cfg n a2p [] st = Inr st"
| "seat_loop cfg n a2p (seat_idx # rest) st =
     (case draw_step cfg n a2p seat_idx st of
        Inl e \<Rightarrow> Inl e
      | Inr st' \<Rightarrow> seat_loop cfg n a2p rest st')"

fun round_loop ::
  "config \<Rightarrow> int \<Rightarrow> (nat \<rightharpoonup> rel_pos) \<Rightarrow> nat list \<Rightarrow> gen_state \<Rightarrow> error + gen_state" where
  "round_loop cfg n a2p [] st = Inr st"
| "round_loop cfg n a2p (round_num # rest) st =
     (case seat_loop cfg n a2p [0..<4] st of
        Inl e \<Rightarrow> Inl e
      | Inr st' \<Rightarrow> round_loop cfg n a2p rest st')"

text \<open>
  \<open>generate_random_draws\<close> up to its \<open>return\<close>: the final local state, pool included.
\<close>

definition simulate_draws :: "config \<Rightarrow> nat list \<Rightarrow> error + gen_state" where
  "simulate_draws cfg rng0 =
     (let pool = build_pool cfg;
          n = HERO_LAST_DISCARD_TURN cfg
      in case list_index seats (HERO_SEAT cfg) of
           Inl e \<Rightarrow> Inl e
         | Inr hero_idx \<Rightarrow>
             (case round_loop cfg n (abs_to_pos hero_idx) [0..<nat n]
                     \<lparr>st_pool = pool, st_draws = (\<lambda>pos. []),
                      st_player_turns = (\<lambda>pos. 0), st_rng = rng0\<rparr> of
                Inl e \<Rightarrow> Inl e
              | Inr st \<Rightarrow>
                  Inr (st\<lparr>st_draws := (st_draws st)(SHIMO := st_draws st SHIMO @ [PInt 45])\<rparr>)))"

definition generate_random_draws ::
  "config \<Rightarrow> nat list \<Rightarrow> error + (rel_pos \<Rightarrow> py_val list)" where
  "generate_random_draws cfg rng0 =
     (case simulate_draws cfg rng0 of Inl e \<Rightarrow> Inl e | Inr st \<Rightarrow> Inr (st_draws st))"

definition get_draws :: "config \<Rightarrow> nat list \<Rightarrow> error + (rel_pos \<Rightarrow> py_val list)" where
  "get_draws cfg rng0 =
     (if list_all (\<lambda>pos. DRAWS cfg pos = []) [HERO, SHIMO, TOIMEN, KAMI]
      then generate_random_draws cfg rng0
      else Inr (DRAWS cfg))"

section \<open>Building the log\<close>

subsection \<open>Discards of the other players\<close>

text \<open>The loop \<open>for turn in range(1, num_discards + 1)\<close>.\<close>

fun discard_loop :: "int \<Rightarrow> int list \<Rightarrow> py_val list \<Rightarrow> py_val list" where
  "discard_loop riichi_turn [] discards = discards"
| "discard_loop riichi_turn (turn # rest) discards =
     discard_loop riichi_turn rest
       (if turn = riichi_turn then discards @ [PStr ''r60''] else discards @ [PInt 60])"

text \<open>\<open>[60] * num_discards\<close> is the empty list when \<open>num_discards\<close> is not positive.\<close>

definition build_other_player_discards :: "config \<Rightarrow> rel_pos \<Rightarrow> int \<Rightarrow> py_val list" where
  "build_other_player_discards cfg pos num_discards =
     (case OTHER_PLAYERS_ACTIONS cfg pos of
        None \<Rightarrow> replicate (nat num_discards) (PInt 60)
      | Some actions \<Rightarrow>
          (let riichi_turn = (case actions ''RIICHI_TURN'' of None \<Rightarrow> 0 | Some t \<Rightarrow> t)
           in if riichi_turn \<le> 0 \<or> riichi_turn > num_discards
              then replicate (nat num_discards) (PInt 60)
              else discard_loop riichi_turn [1..num_discards] []))"

subsection \<open>The four players\<close>

text \<open>\<open>xs[-1] = v\<close>: \<open>IndexError\<close> on the empty list.\<close>

definition set_last :: "'a list \<Rightarrow> 'a \<Rightarrow> error + 'a list" where
  "set_last xs v = (if xs = [] then Inl IndexError else Inr (xs[length xs - 1 := v]))"

text \<open>The local \<open>call_notation\<close> of \<open>build_player_data\<close>.\<close>

definition hero_call_notation :: "config \<Rightarrow> error + py_val" where
  "hero_call_notation cfg =
     (if HERO_LAST_ACTION cfg = ''CHI'' then
        (case generate_call_notation ''CHI'' (HERO_CALL_TILE cfg) None (Some (HERO_CHI_TILES cfg)) of
           Inl e \<Rightarrow> Inl e | Inr s \<Rightarrow> Inr (PStr s))
      else if HERO_LAST_ACTION cfg = ''PON'' then
        (case generate_call_notation ''PON'' (HERO_CALL_TILE cfg) (Some (HERO_PON_SOURCE cfg)) None of
           Inl e \<Rightarrow> Inl e | Inr s \<Rightarrow> Inr (PStr s))
      else if HERO_LAST_ACTION cfg = ''KAN'' then
        (case generate_call_notation ''KAN'' (HERO_CALL_TILE cfg) (Some (HERO_KAN_SOURCE cfg)) None of
           Inl e \<Rightarrow> Inl e | Inr s \<Rightarrow> Inr (PStr s))
      else if HERO_LAST_ACTION cfg = ''ANKAN'' then
        (case generate_call_notation ''ANKAN'' (HERO_CALL_TILE cfg) None None of
           Inl e \<Rightarrow> Inl e | Inr s \<Rightarrow> Inr (PStr s))
      else Inr PNone)"

text \<open>
  The branch \<open>rel_pos == "HERO"\<close> of the loop: the hero's hand, draws and discards.
  \<open>[60] * (HERO_LAST_DISCARD_TURN - 1)\<close> is empty when the turn number is below 2.
\<close>

definition hero_entry ::
  "config \<Rightarrow> py_val list \<Rightarrow> py_val \<Rightarrow> error + (py_val list \<times> py_val list \<times> py_val list)" where
  "hero_entry cfg hero_draws call_notation =
     (let hand = map PInt (HERO_HAND cfg);
          draws = hero_draws;
          fillers = replicate (nat (HERO_LAST_DISCARD_TURN cfg - 1)) (PInt 60)
      in if HERO_LAST_ACTION cfg = ''DISCARD'' then
           Inr (hand, draws, fillers @ [PInt (HERO_LAST_DISCARD cfg)])
         else if HERO_LAST_ACTION cfg = ''RIICHI'' then
           Inr (hand, draws, fillers @ [PStr (''r'' @ str_int (HERO_LAST_DISCARD cfg))])
         else if HERO_LAST_ACTION cfg = ''CHI'' then
           (case set_last draws call_notation of
              Inl e \<Rightarrow> Inl e
            | Inr draws \<Rightarrow> Inr (hand, draws, fillers @ [PInt (HERO_LAST_DISCARD cfg)]))
         else if HERO_LAST_ACTION cfg = ''PON'' then
           (case set_last draws call_notation of
              Inl e \<Rightarrow> Inl e
            | Inr draws \<Rightarrow> Inr (hand, draws, fillers @ [PInt (HERO_LAST_DISCARD cfg)]))
         else if HERO_LAST_ACTION cfg \<in> set [''KAN'', ''ANKAN''] then
           (case set_last draws call_notation of
              Inl e \<Rightarrow> Inl e
            | Inr draws \<Rightarrow>
                Inr (hand, draws @ [PInt (HERO_LAST_DRAW cfg)],
                     fillers @ [PInt (HERO_LAST_DISCARD cfg)]))
         else Inr (hand, draws, fillers @ [PInt (HERO_LAST_DISCARD cfg)]))"

text \<open>The body of the loop \<open>for i in range(4)\<close>: the triple of the absolute seat \<open>i\<close>.\<close>

definition player_entry ::
  "config \<Rightarrow> (rel_pos \<Rightarrow> py_val list) \<Rightarrow> nat \<Rightarrow> (nat \<rightharpoonup> rel_pos) \<Rightarrow> int \<Rightarrow> py_val \<Rightarrow> nat
     \<Rightarrow> error + (py_val list \<times> py_val list \<times> py_val list)" where
  "player_entry cfg current_draws hero_idx pos_map n call_notation i =
     (case pos_map i of
        None \<Rightarrow> Inl KeyError
      | Some pos \<Rightarrow>
          (let full_rounds = (if i \<le> hero_idx then n else n - 1);
               default_hand = replicate 13 (PInt 45)
           in if pos = HERO then hero_entry cfg (current_draws HERO) call_notation
              else if pos = SHIMO then
                Inr (default_hand, current_draws SHIMO,
                     build_other_player_discards cfg pos full_rounds)
              else
                Inr (default_hand, current_draws pos,
                     build_other_player_discards cfg pos full_rounds)))"

fun player_loop ::
  "config \<Rightarrow> (rel_pos \<Rightarrow> py_val list) \<Rightarrow> nat \<Rightarrow> (nat \<rightharpoonup> rel_pos) \<Rightarrow> int \<Rightarrow> py_val \<Rightarrow> nat list
     \<Rightarrow> py_val list list \<Rightarrow> error + py_val list list" where
  "player_loop cfg current_draws hero_idx pos_map n call_notation [] result = Inr result"
| "player_loop cfg current_draws hero_idx pos_map n call_notation (i # rest) result =
     (case player_entry cfg current_draws hero_idx pos_map n call_notation i of
        Inl e \<Rightarrow> Inl e
      | Inr (hand, draws, discards) \<Rightarrow>
          player_loop cfg current_draws hero_idx pos_map n call_notation rest
            (result @ [hand, draws, discards]))"

definition build_player_data :: "config \<Rightarrow> nat list \<Rightarrow> error + py_val list list" where
  "build_player_data cfg rng0 =
     (case get_draws cfg rng0 of
        Inl e \<Rightarrow> Inl e
      | Inr current_draws \<Rightarrow>
          (case list_index seats (HERO_SEAT cfg) of
             Inl e \<Rightarrow> Inl e
           | Inr hero_idx \<Rightarrow>
               (let pos_map = abs_to_pos hero_idx;
                    n = int (length (current_draws HERO))
                in case hero_call_notation cfg of
                     Inl e \<Rightarrow> Inl e
                   | Inr call_notation \<Rightarrow>
                       player_loop cfg current_draws hero_idx pos_map n call_notation
                         [0..<4] [])))"

section \<open>The configuration of the source file\<close>

text \<open>
  The values the module assigns.  Of \<open>RULE\<close> only the key \<open>aka\<close> is read by the modelled
  functions; its display name is left out.
\<close>

definition default_config :: config where
  "default_config =
     \<lparr>RULE = [''aka'' \<mapsto> PInt 1],
      DORA_INDICATOR = [21],
      HERO_SEAT = ''NORTH'',
      HERO_HAND = [13, 14, 17, 18, 19, 25, 26, 27, 28, 28, 31, 31, 33],
      HERO_LAST_DRAW = 32,
      HERO_LAST_DISCARD = 31,
      HERO_LAST_DISCARD_TURN = 8,
      HERO_LAST_ACTION = ''RIICHI'',
      HERO_CALL_TILE = 0,
      HERO_CHI_TILES = [],
      HERO_PON_SOURCE = ''KAMI'',
      HERO_KAN_SOURCE = ''KAMI'',
      OTHER_PLAYERS_ACTIONS =
        [SHIMO \<mapsto> [''RIICHI_TURN'' \<mapsto> 5],
         TOIMEN \<mapsto> [''RIICHI_TURN'' \<mapsto> 0],
         KAMI \<mapsto> [''RIICHI_TURN'' \<mapsto> 0]],
      DRAWS = (\<lambda>pos. [])\<rparr>"

section \<open>Notions of the specification\<close>

text \<open>
  The marker \<open>mk\<close> standing at the \<open>k\<close>-th of \<open>n\<close> slots of the repeated tile-value string
  \<open>t\<close>: \<open>k - 1\<close> copies of \<open>t\<close>, the marker, then the remaining copies.
\<close>

definition marker_in_slot :: "char \<Rightarrow> nat \<Rightarrow> nat \<Rightarrow> string \<Rightarrow> string" where
  "marker_in_slot mk k n t =
     concat (replicate (k - 1) t) @ [mk] @ concat (replicate (n - (k - 1)) t)"

text \<open>
  The tile classes in the words of the specification: the tens digit is the suit (1 to 3),
  the units digit the rank; \<open>4x\<close> are the seven honors and \<open>51, 52, 53\<close> the red fives.
\<close>

definition suited_ranks :: "int set \<Rightarrow> int set" where
  "suited_ranks ranks = (\<lambda>(suit, rank). 10 * suit + rank) ` ({1, 2, 3} \<times> ranks)"

definition honor_tiles :: "int set" where
  "honor_tiles = {41..47}"

definition red_fives :: "int set" where
  "red_fives = {51, 52, 53}"

section \<open>Example configurations\<close>

text \<open>
  The configuration of the source with an open kan of the tile 32 on the hero's second
  turn and configured draws.
\<close>

definition kan_config :: config where
  "kan_config =
     default_config\<lparr>HERO_LAST_ACTION := ''KAN'', HERO_CALL_TILE := 32,
       HERO_LAST_DISCARD_TURN := 2, DRAWS := (\<lambda>pos. [PInt 11, PInt 32])\<rparr>"

text \<open>The configuration of the source with the hero seated \<open>EAST\<close> and two turns.\<close>

definition east_config :: config where
  "east_config = default_config\<lparr>HERO_SEAT := ''EAST'', HERO_LAST_DISCARD_TURN := 2\<rparr>"

section \<open>Auxiliary notions of the proofs\<close>

text \<open>The local \<open>available\<close> of \<open>draw_random_tile\<close> after the fallback.\<close>

definition available_tiles :: "int list \<Rightarrow> int \<Rightarrow> int list" where
  "available_tiles pool turn =
     (if filter (\<lambda>t. t \<in> get_allowed_tiles turn) pool = [] then pool
      else filter (\<lambda>t. t \<in> get_allowed_tiles turn) pool)"

text \<open>The pool of \<open>generate_random_draws\<close> before the fixed tiles are removed.\<close>

definition full_pool :: "config \<Rightarrow> int list" where
  "full_pool cfg =
     (if RULE cfg ''aka'' = Some (PInt 1)
      then replace_red_fives [(15, 51), (25, 52), (35, 53)] initial_pool else initial_pool)"

text \<open>All entries of the four draw records.\<close>

definition all_draws :: "(rel_pos \<Rightarrow> py_val list) \<Rightarrow> py_val list" where
  "all_draws d = d HERO @ d SHIMO @ d TOIMEN @ d KAMI"

section \<open>Facts about the builtins\<close>

lemma digit_char_in: "d < 10 \<Longrightarrow> digit_char d \<in> set ''0123456789''"
  unfolding digit_char_def by (rule nth_mem) simp

lemma str_nat_digits: "set (str_nat n) \<subseteq> set ''0123456789''"
proof (induction n rule: str_nat.induct)
  case (1 n)
  show ?case
  proof (cases "n < 10")
    case True
    then show ?thesis using digit_char_in [of n] by (subst str_nat.simps) simp
  next
    case False
    have "digit_char (n mod 10) \<in> set ''0123456789''" by (rule digit_char_in) simp
    with False 1 show ?thesis by (subst str_nat.simps) simp
  qed
qed

lemma str_nat_length2:
  assumes "10 \<le> n" "n < 100"
  shows "length (str_nat n) = 2"
proof -
  have "n div 10 < 10" using assms by simp
  with assms show ?thesis
    by (subst str_nat.simps, subst str_nat.simps) simp
qed

lemma str_nat_nonempty: "str_nat n \<noteq> []"
  by (subst str_nat.simps) simp

lemma str_int_nonempty: "str_int i \<noteq> []"
  by (simp add: str_int_def str_nat_nonempty)

lemma str_int_chars: "set (str_int i) \<subseteq> set ''-0123456789''"
proof (cases "i < 0")
  case True
  have "set (str_nat (nat (- i))) \<subseteq> set ''-0123456789''"
    using str_nat_digits [of "nat (- i)"] by (rule subset_trans) (simp add: subset_insertI2)
  with True show ?thesis by (simp add: str_int_def)
next
  case False
  have "set (str_nat (nat i)) \<subseteq> set ''-0123456789''"
    using str_nat_digits [of "nat i"] by (rule subset_trans) (simp add: subset_insertI2)
  with False show ?thesis by (simp add: str_int_def)
qed

lemma str_int_no_char: "c \<notin> set ''-0123456789'' \<Longrightarrow> c \<notin> set (str_int i)"
  using str_int_chars [of i] by blast

lemma str_int_no_marker:
  "CHR ''c'' \<notin> set (str_int i)" "CHR ''p'' \<notin> set (str_int i)"
  "CHR ''m'' \<notin> set (str_int i)" "CHR ''a'' \<notin> set (str_int i)"
  by (rule str_int_no_char, simp)+

lemma str_int_length2: "10 \<le> i \<Longrightarrow> i \<le> 99 \<Longrightarrow> length (str_int i) = 2"
  by (simp add: str_int_def str_nat_length2)

lemma list_index_seats:
  "list_index seats s = Inr i \<Longrightarrow>
     (s = ''EAST'' \<and> i = 0) \<or> (s = ''SOUTH'' \<and> i = 1) \<or> (s = ''WEST'' \<and> i = 2) \<or> (s = ''NORTH'' \<and> i = 3)"
  by (simp add: seats_def split: if_splits)

lemma list_index_seats_lt: "list_index seats s = Inr i \<Longrightarrow> i < 4"
  by (drule list_index_seats) auto

lemma list_index_seats_mem: "s \<in> set seats \<Longrightarrow> \<exists>i. list_index seats s = Inr i"
  by (auto simp: seats_def)

lemma list_index_seats_nth: "i < 4 \<Longrightarrow> list_index seats (seats ! i) = Inr i"
proof -
  assume "i < 4"
  then have "i = 0 \<or> i = 1 \<or> i = 2 \<or> i = 3" by auto
  then show ?thesis by (elim disjE) (simp_all add: seats_def)
qed

section \<open>Score changes: the fixed rule\<close>

lemma score_cases:
  assumes "list_index seats (HERO_SEAT cfg) = Inr hero_idx"
  shows "calculate_score_changes cfg =
     Inr (if hero_idx = 3 then [144000, - 48000, - 48000, - 48000]
          else if hero_idx = 0 then [- 48000, 96000, - 24000, - 24000]
          else if hero_idx = 1 then [- 48000, - 24000, 96000, - 24000]
          else [- 48000, - 24000, - 24000, 96000])"
proof -
  from assms have "hero_idx = 0 \<or> hero_idx = 1 \<or> hero_idx = 2 \<or> hero_idx = 3"
    by (drule_tac list_index_seats) auto
  then show ?thesis using assms
    by (elim disjE) (simp_all add: calculate_score_changes_def Let_def upt_rec)
qed

text \<open>
  Claim C9.  For every hero seat, the winner being the seat after the hero's: when the
  winner is the dealer (seat index 0), the three other seats pay the same amount and the
  winner receives three times that amount; when the winner is not the dealer, the dealer
  pays twice what each other losing seat pays; and the four changes always sum to zero.
\<close>

theorem score_changes_rule:
  assumes "hero_idx < 4" and "HERO_SEAT cfg = seats ! hero_idx"
  shows "\<exists>changes. calculate_score_changes cfg = Inr changes \<and> length changes = 4 \<and>
           sum_list changes = 0 \<and>
           ((hero_idx + 1) mod 4 = 0 \<longrightarrow>
              (\<forall>i < 4. i \<noteq> 0 \<longrightarrow> changes ! i = changes ! 1) \<and> changes ! 1 < 0 \<and>
              changes ! 0 = 3 * (- (changes ! 1))) \<and>
           ((hero_idx + 1) mod 4 \<noteq> 0 \<longrightarrow>
              changes ! ((hero_idx + 1) mod 4) > 0 \<and>
              (\<forall>i < 4. i \<noteq> 0 \<and> i \<noteq> (hero_idx + 1) mod 4 \<longrightarrow>
                 changes ! i < 0 \<and> changes ! 0 = 2 * changes ! i))"
proof -
  from assms have idx: "list_index seats (HERO_SEAT cfg) = Inr hero_idx"
    by (simp add: list_index_seats_nth)
  from assms have h: "hero_idx = 0 \<or> hero_idx = 1 \<or> hero_idx = 2 \<or> hero_idx = 3"
    by auto
  have lt4: "\<And>P. (\<forall>i<4::nat. P i) = (P 0 \<and> P 1 \<and> P 2 \<and> P 3)"
    by (auto simp: less_Suc_eq numeral_eq_Suc)
  from h show ?thesis
    by (elim disjE) (simp_all add: score_cases [OF idx] lt4)
qed

theorem score_changes_rule_witness:
  "(3::nat) < 4 \<and> HERO_SEAT default_config = seats ! 3 \<and>
   calculate_score_changes default_config = Inr [144000, - 48000, - 48000, - 48000] \<and>
   (0::nat) < 4 \<and> HERO_SEAT (default_config\<lparr>HERO_SEAT := ''EAST''\<rparr>) = seats ! 0 \<and>
   calculate_score_changes (default_config\<lparr>HERO_SEAT := ''EAST''\<rparr>) =
     Inr [- 48000, 96000, - 24000, - 24000]"
  using score_changes_rule [of 3 default_config]
    score_changes_rule [of 0 "default_config\<lparr>HERO_SEAT := ''EAST''\<rparr>"]
  by (simp add: default_config_def seats_def calculate_score_changes_def Let_def upt_rec)

section \<open>Call notation: lengths and marker slots\<close>

lemma chi_loop_length:
  "length (chi_loop tile xs acc) =
     length acc + sum_list (map (\<lambda>tt. length (str_int tt) + (if tt = tile then 1 else 0)) xs)"
  by (induction xs arbitrary: acc) auto

lemma sum_list_map_sort:
  fixes f :: "int \<Rightarrow> nat"
  shows "sum_list (map f (sort xs)) = sum_list (map f xs)"
proof -
  have "mset (map f (sort xs)) = mset (map f xs)" by simp
  then show ?thesis by (metis sum_mset_sum_list)
qed

text \<open>
  Claim C2, as the code has it.  For a two-digit tile value (every tile of the pool is one)
  the encoded string has 7 characters for \<open>CHI\<close> (two hand tiles, both two-digit and
  different from the called tile) and for \<open>PON\<close>, and 9 characters for \<open>KAN\<close> and \<open>ANKAN\<close>,
  whatever the source seat: the marker is one character more than the 6 or 8 digits.
\<close>

theorem call_notation_length:
  assumes "10 \<le> tile" "tile \<le> 99"
  shows "(\<forall>a b. 10 \<le> a \<and> a \<le> 99 \<and> a \<noteq> tile \<and> 10 \<le> b \<and> b \<le> 99 \<and> b \<noteq> tile \<longrightarrow>
            (\<exists>s. generate_call_notation ''CHI'' tile src (Some [a, b]) = Inr s \<and> length s = 7))
       \<and> (\<exists>s. generate_call_notation ''PON'' tile src ct = Inr s \<and> length s = 7)
       \<and> (\<exists>s. generate_call_notation ''KAN'' tile src ct = Inr s \<and> length s = 9)
       \<and> (\<exists>s. generate_call_notation ''ANKAN'' tile src ct = Inr s \<and> length s = 9)"
proof -
  have t2: "length (str_int tile) = 2" using assms by (rule str_int_length2)
  have chi: "\<exists>s. generate_call_notation ''CHI'' tile src (Some [a, b]) = Inr s \<and> length s = 7"
    if "10 \<le> a" "a \<le> 99" "a \<noteq> tile" "10 \<le> b" "b \<le> 99" "b \<noteq> tile" for a b
  proof -
    have "length (str_int a) = 2" "length (str_int b) = 2"
      using that by (simp_all add: str_int_length2)
    then have "length (chi_loop tile (sort ([a, b] @ [tile])) '''') = 7"
      using that t2 unfolding chi_loop_length sum_list_map_sort by simp
    then show ?thesis by (simp add: generate_call_notation_def)
  qed
  have pon: "\<exists>s. generate_call_notation ''PON'' tile src ct = Inr s \<and> length s = 7"
    using t2 by (simp add: generate_call_notation_def Let_def)
  have kan: "\<exists>s. generate_call_notation ''KAN'' tile src ct = Inr s \<and> length s = 9"
    using t2 by (simp add: generate_call_notation_def Let_def)
  have ankan: "\<exists>s. generate_call_notation ''ANKAN'' tile src ct = Inr s \<and> length s = 9"
    using t2 by (simp add: generate_call_notation_def Let_def)
  from chi pon kan ankan show ?thesis by blast
qed

text \<open>The lengths 6 and 8 of the claim fail on the example of the docstring itself.\<close>

theorem call_notation_length_counterexample:
  "generate_call_notation ''PON'' 38 (Some ''KAMI'') None = Inr ''p383838'' \<and>
   length ''p383838'' \<noteq> 6 \<and>
   generate_call_notation ''KAN'' 38 (Some ''KAMI'') None = Inr ''m38383838'' \<and>
   length ''m38383838'' \<noteq> 8"
  by (simp add: generate_call_notation_def str_int_def str_nat.simps digit_char_def)

theorem call_notation_length_witness:
  "(10::int) \<le> 12 \<and> (12::int) \<le> 99 \<and>
   generate_call_notation ''CHI'' 12 None (Some [11, 13]) = Inr ''11c1213'' \<and>
   (\<exists>s. generate_call_notation ''PON'' 12 (Some ''TOIMEN'') None = Inr s \<and> length s = 7) \<and>
   (\<exists>s. generate_call_notation ''KAN'' 12 (Some ''SHIMO'') None = Inr s \<and> length s = 9) \<and>
   (\<exists>s. generate_call_notation ''ANKAN'' 12 None None = Inr s \<and> length s = 9)"
  using call_notation_length [where tile = 12 and src = "Some ''TOIMEN''" and ct = None]
    call_notation_length [where tile = 12 and src = "Some ''SHIMO''" and ct = None]
    call_notation_length [where tile = 12 and src = None and ct = None]
  by (simp add: generate_call_notation_def str_int_def str_nat.simps digit_char_def)

lemma kan_third_slot:
  assumes "m \<notin> set t" "t \<noteq> []"
  shows "[m] @ t @ t @ t @ t \<noteq> t @ t @ [m] @ t @ t"
    "t @ [m] @ t @ t @ t \<noteq> t @ t @ [m] @ t @ t"
    "t @ t @ t @ [m] @ t \<noteq> t @ t @ [m] @ t @ t"
proof -
  have a: "[] @ m # (t @ t @ t @ t) \<noteq> (t @ t) @ m # (t @ t)"
    using assms by (subst append_Cons_eq_iff) auto
  have b: "t @ m # (t @ t @ t) \<noteq> (t @ t) @ m # (t @ t)"
    using assms by (subst append_Cons_eq_iff) auto
  have c: "(t @ t @ t) @ m # t \<noteq> (t @ t) @ m # (t @ t)"
    using assms by (subst append_Cons_eq_iff) auto
  from a show "[m] @ t @ t @ t @ t \<noteq> t @ t @ [m] @ t @ t" by simp
  from b show "t @ [m] @ t @ t @ t \<noteq> t @ t @ [m] @ t @ t" by simp
  from c show "t @ t @ t @ [m] @ t \<noteq> t @ t @ [m] @ t @ t" by simp
qed

text \<open>
  Claim C5.  For \<open>PON\<close> the marker \<open>p\<close> stands at the first, second, third slot for the
  source \<open>KAMI\<close>, \<open>TOIMEN\<close>, \<open>SHIMO\<close>; for \<open>KAN\<close> the marker \<open>m\<close> stands at the first,
  second, fourth of the four slots, and never at the third whatever the source; for
  \<open>ANKAN\<close> the marker \<open>a\<close> always stands at the fourth slot.  The markers are no
  characters of a tile-value string, which is never empty, so the slot is determined.
\<close>

theorem call_notation_marker_slot:
  "generate_call_notation ''PON'' tile (Some ''KAMI'') ct = Inr (marker_in_slot CHR ''p'' 1 3 (str_int tile))
   \<and> generate_call_notation ''PON'' tile (Some ''TOIMEN'') ct = Inr (marker_in_slot CHR ''p'' 2 3 (str_int tile))
   \<and> generate_call_notation ''PON'' tile (Some ''SHIMO'') ct = Inr (marker_in_slot CHR ''p'' 3 3 (str_int tile))
   \<and> generate_call_notation ''KAN'' tile (Some ''KAMI'') ct = Inr (marker_in_slot CHR ''m'' 1 4 (str_int tile))
   \<and> generate_call_notation ''KAN'' tile (Some ''TOIMEN'') ct = Inr (marker_in_slot CHR ''m'' 2 4 (str_int tile))
   \<and> generate_call_notation ''KAN'' tile (Some ''SHIMO'') ct = Inr (marker_in_slot CHR ''m'' 4 4 (str_int tile))
   \<and> (\<forall>src. generate_call_notation ''KAN'' tile src ct \<noteq> Inr (marker_in_slot CHR ''m'' 3 4 (str_int tile)))
   \<and> (\<forall>src. generate_call_notation ''ANKAN'' tile src ct = Inr (marker_in_slot CHR ''a'' 4 4 (str_int tile)))
   \<and> CHR ''p'' \<notin> set (str_int tile) \<and> CHR ''m'' \<notin> set (str_int tile)
   \<and> CHR ''a'' \<notin> set (str_int tile) \<and> str_int tile \<noteq> []"
proof -
  have r: "replicate 4 x = [x, x, x, x]" "replicate 3 x = [x, x, x]" "replicate 2 x = [x, x]" for x :: string
    by (simp_all add: numeral_eq_Suc)
  have third: "generate_call_notation ''KAN'' tile src ct \<noteq> Inr (marker_in_slot CHR ''m'' 3 4 (str_int tile))" for src
    using kan_third_slot [OF str_int_no_marker(3) str_int_nonempty, of tile]
    by (simp add: generate_call_notation_def Let_def marker_in_slot_def r)
  show ?thesis
    using third
    by (simp add: generate_call_notation_def Let_def marker_in_slot_def r str_int_no_marker str_int_nonempty)
qed


section \<open>Turn restrictions\<close>

lemma suited_ranks_eqs:
  "suited_ranks {1, 9} = terminals"
  "suited_ranks {2, 8} = twos_eights"
  "suited_ranks {3, 7} = threes_sevens"
  "suited_ranks {4, 5, 6} \<union> red_fives = middle"
  by (auto simp: suited_ranks_def terminals_def twos_eights_def threes_sevens_def middle_def red_fives_def)

lemma honors_eq: "honor_tiles = honors"
  by (simp only: honor_tiles_def honors_def set_upto)

text \<open>
  Claim C3.  The allowed set is cumulative in the personal turn number: the terminals and
  the honors at every turn (so exactly these for turns 1 to 3), with ranks 2 and 8 from
  turn 4 on, ranks 3 and 7 from turn 6 on, and ranks 4, 5, 6 with the red fives from turn 7
  on.  The equation holds for every integer, the turns \<open>t \<ge> 1\<close> among them.
\<close>

theorem allowed_tiles_cumulative:
  "get_allowed_tiles t =
     suited_ranks {1, 9} \<union> honor_tiles
     \<union> (if 4 \<le> t then suited_ranks {2, 8} else {})
     \<union> (if 6 \<le> t then suited_ranks {3, 7} else {})
     \<union> (if 7 \<le> t then suited_ranks {4, 5, 6} \<union> red_fives else {})"
  unfolding suited_ranks_eqs honors_eq
  by (simp add: get_allowed_tiles_def Let_def)

section \<open>Discards of the other players\<close>

lemma discard_loop_map:
  "discard_loop rt xs acc = acc @ map (\<lambda>turn. if turn = rt then PStr ''r60'' else PInt 60) xs"
  by (induction xs arbitrary: acc) auto

text \<open>
  Claim C8.  For a position configured with riichi turn \<open>T\<close> and \<open>m\<close> discards: when
  \<open>1 \<le> T \<le> m\<close> the list has length \<open>m\<close>, its \<open>T\<close>-th entry is the riichi-tagged filler
  and every other entry the plain filler; when \<open>T \<le> 0\<close> or \<open>T > m\<close> the list is \<open>m\<close> plain
  fillers.
\<close>

theorem other_player_discards_riichi:
  assumes "OTHER_PLAYERS_ACTIONS cfg pos = Some actions" and "actions ''RIICHI_TURN'' = Some T"
  shows "(1 \<le> T \<and> T \<le> m \<longrightarrow>
            length (build_other_player_discards cfg pos m) = nat m \<and>
            build_other_player_discards cfg pos m ! (nat T - 1) = PStr ''r60'' \<and>
            (\<forall>i < nat m. i \<noteq> nat T - 1 \<longrightarrow> build_other_player_discards cfg pos m ! i = PInt 60))
       \<and> (T \<le> 0 \<or> m < T \<longrightarrow>
            build_other_player_discards cfg pos m = replicate (nat m) (PInt 60))"
proof (intro conjI impI)
  assume T: "1 \<le> T \<and> T \<le> m"
  then have eq: "build_other_player_discards cfg pos m =
      map (\<lambda>turn. if turn = T then PStr ''r60'' else PInt 60) [1..m]"
    using assms by (simp add: build_other_player_discards_def discard_loop_map)
  show "length (build_other_player_discards cfg pos m) = nat m"
    by (simp add: eq)
  from T have "nat T - 1 < length [1..m]" by (simp, arith)
  moreover from T have "1 + int (nat T - 1) = T" by arith
  ultimately show "build_other_player_discards cfg pos m ! (nat T - 1) = PStr ''r60''"
    unfolding eq by (simp only: nth_map) simp
  show "\<forall>i < nat m. i \<noteq> nat T - 1 \<longrightarrow> build_other_player_discards cfg pos m ! i = PInt 60"
  proof (intro allI impI)
    fix i assume i: "i < nat m" "i \<noteq> nat T - 1"
    then have "i < length [1..m]" by simp
    moreover from i T have "1 + int i \<noteq> T" by auto
    ultimately show "build_other_player_discards cfg pos m ! i = PInt 60"
      using i unfolding eq by (simp only: nth_map) simp
  qed
next
  assume "T \<le> 0 \<or> m < T"
  then show "build_other_player_discards cfg pos m = replicate (nat m) (PInt 60)"
    using assms by (auto simp: build_other_player_discards_def)
qed

theorem other_player_discards_riichi_witness:
  "OTHER_PLAYERS_ACTIONS default_config SHIMO = Some [''RIICHI_TURN'' \<mapsto> 5] \<and>
   [''RIICHI_TURN'' \<mapsto> (5::int)] ''RIICHI_TURN'' = Some 5 \<and>
   build_other_player_discards default_config SHIMO 8 =
     [PInt 60, PInt 60, PInt 60, PInt 60, PStr ''r60'', PInt 60, PInt 60, PInt 60] \<and>
   build_other_player_discards default_config SHIMO 4 = [PInt 60, PInt 60, PInt 60, PInt 60]"
  using other_player_discards_riichi [of default_config SHIMO "[''RIICHI_TURN'' \<mapsto> 5]" 5 8]
    other_player_discards_riichi [of default_config SHIMO "[''RIICHI_TURN'' \<mapsto> 5]" 5 4]
  by (simp add: default_config_def build_other_player_discards_def upto_rec1 numeral_eq_Suc)


section \<open>Configured draws\<close>

lemma rel_pos_all: "list_all P [HERO, SHIMO, TOIMEN, KAMI] = (\<forall>pos. P pos)"
proof
  assume a: "list_all P [HERO, SHIMO, TOIMEN, KAMI]"
  show "\<forall>pos. P pos"
  proof
    fix pos show "P pos" using a by (cases pos) simp_all
  qed
next
  assume "\<forall>pos. P pos" then show "list_all P [HERO, SHIMO, TOIMEN, KAMI]" by simp
qed

text \<open>
  Claim C10.  When one of the four configured draw lists is not empty, \<open>get_draws\<close> returns
  \<open>DRAWS\<close> itself, whatever the random generator is, empty lists included; the random
  generation is what it returns only when all four lists are empty.
\<close>

theorem get_draws_configured:
  "((\<exists>pos. DRAWS cfg pos \<noteq> []) \<longrightarrow> get_draws cfg rng0 = Inr (DRAWS cfg))
   \<and> ((\<forall>pos. DRAWS cfg pos = []) \<longrightarrow> get_draws cfg rng0 = generate_random_draws cfg rng0)"
  unfolding get_draws_def rel_pos_all by simp


theorem get_draws_configured_witness:
  "DRAWS (default_config\<lparr>DRAWS := (\<lambda>pos. [])(HERO := [PInt 11])\<rparr>) HERO \<noteq> [] \<and>
   get_draws (default_config\<lparr>DRAWS := (\<lambda>pos. [])(HERO := [PInt 11])\<rparr>) [] =
     Inr ((\<lambda>pos. [])(HERO := [PInt 11])) \<and>
   DRAWS default_config = (\<lambda>pos. []) \<and>
   get_draws default_config [] = generate_random_draws default_config []"
proof -
  have h1: "\<exists>pos. DRAWS (default_config\<lparr>DRAWS := (\<lambda>pos. [])(HERO := [PInt 11])\<rparr>) pos \<noteq> []"
    by (rule exI [of _ HERO]) simp
  have h2: "\<forall>pos. DRAWS default_config pos = []"
    by (simp add: default_config_def)
  from h1 get_draws_configured [of "default_config\<lparr>DRAWS := (\<lambda>pos. [])(HERO := [PInt 11])\<rparr>" "[]"]
  have c1: "get_draws (default_config\<lparr>DRAWS := (\<lambda>pos. [])(HERO := [PInt 11])\<rparr>) [] =
     Inr ((\<lambda>pos. [])(HERO := [PInt 11]))"
    by simp
  from h2 get_draws_configured [of default_config "[]"]
  have c2: "get_draws default_config [] = generate_random_draws default_config []"
    by blast
  from c1 c2 show ?thesis by (simp add: default_config_def)
qed

section \<open>Filtered drawing\<close>

lemma random_choice_mem:
  assumes "seq \<noteq> []"
  shows "\<exists>x rng'. random_choice rng seq = Inr (x, rng') \<and> x \<in> set seq"
proof (cases rng)
  case Nil
  with assms show ?thesis by (simp add: random_choice_def)
next
  case (Cons r rest)
  from assms have "r mod length seq < length seq" by simp
  then have "seq ! (r mod length seq) \<in> set seq" by (rule nth_mem)
  with assms Cons show ?thesis by (simp add: random_choice_def)
qed

lemma random_choice_reach:
  assumes "x \<in> set seq"
  shows "\<exists>k. random_choice [k] seq = Inr (x, [])"
proof -
  from assms obtain k where k: "k < length seq" "seq ! k = x"
    by (auto simp: in_set_conv_nth)
  then have "random_choice [k] seq = Inr (x, [])"
    by (auto simp: random_choice_def)
  then show ?thesis ..
qed

lemma draw_random_tile_available:
  "draw_random_tile pool turn rng =
     (if pool = [] then Inl (ValueError ''No tiles left in pool!'')
      else (case random_choice rng (available_tiles pool turn) of
              Inl e \<Rightarrow> Inl e
            | Inr (tile, rng') \<Rightarrow>
                (if tile \<in> set pool then Inr (tile, remove1 tile pool, rng')
                 else Inl (ValueError ''x not in list''))))"
  by (auto simp: draw_random_tile_def available_tiles_def list_remove_def Let_def
      split: sum.splits prod.splits)

lemma available_tiles_subset: "set (available_tiles pool turn) \<subseteq> set pool"
  by (auto simp: available_tiles_def)

lemma available_tiles_nonempty: "pool \<noteq> [] \<Longrightarrow> available_tiles pool turn \<noteq> []"
  by (auto simp: available_tiles_def)

lemma draw_random_tile_from_available:
  assumes "pool \<noteq> []"
  shows "\<exists>tile rng'. draw_random_tile pool turn rng = Inr (tile, remove1 tile pool, rng') \<and>
           tile \<in> set (available_tiles pool turn)"
proof -
  from assms obtain x rng' where
    x: "random_choice rng (available_tiles pool turn) = Inr (x, rng')"
       "x \<in> set (available_tiles pool turn)"
    using random_choice_mem [OF available_tiles_nonempty] by blast
  with available_tiles_subset have "x \<in> set pool" by blast
  with x assms show ?thesis by (simp add: draw_random_tile_available)
qed

lemma draw_random_tile_reach:
  assumes "x \<in> set (available_tiles pool turn)"
  shows "\<exists>r. draw_random_tile pool turn r = Inr (x, remove1 x pool, [])"
proof -
  from assms available_tiles_subset have mem: "x \<in> set pool" by blast
  then have ne: "pool \<noteq> []" by auto
  from random_choice_reach [OF assms] obtain k where
    "random_choice [k] (available_tiles pool turn) = Inr (x, [])" ..
  with mem ne have "draw_random_tile pool turn [k] = Inr (x, remove1 x pool, [])"
    by (simp add: draw_random_tile_available)
  then show ?thesis ..
qed

text \<open>
  Claim C4.  When the pool holds an allowed tile, the draw returns one tile of the pool
  that is allowed and removes one occurrence of it, and every allowed tile of the pool is
  the result for some state of the random generator.  When the pool is not empty and holds
  no allowed tile, the draw returns a tile of the pool and removes it, and every tile of
  the pool is a possible result.  When the pool is empty the draw raises the
  \<open>ValueError\<close> with the message \<open>No tiles left in pool!\<close>.
\<close>

theorem draw_random_tile_cases:
  "((\<exists>t \<in> set pool. t \<in> get_allowed_tiles turn) \<longrightarrow>
      (\<exists>tile rng'. draw_random_tile pool turn rng = Inr (tile, remove1 tile pool, rng') \<and>
         tile \<in> set pool \<and> tile \<in> get_allowed_tiles turn) \<and>
      (\<forall>x \<in> set pool. x \<in> get_allowed_tiles turn \<longrightarrow>
         (\<exists>r. draw_random_tile pool turn r = Inr (x, remove1 x pool, []))))
   \<and> (pool \<noteq> [] \<and> (\<forall>t \<in> set pool. t \<notin> get_allowed_tiles turn) \<longrightarrow>
      (\<exists>tile rng'. draw_random_tile pool turn rng = Inr (tile, remove1 tile pool, rng') \<and>
         tile \<in> set pool) \<and>
      (\<forall>x \<in> set pool. \<exists>r. draw_random_tile pool turn r = Inr (x, remove1 x pool, [])))
   \<and> (pool = [] \<longrightarrow> draw_random_tile pool turn rng = Inl (ValueError ''No tiles left in pool!''))"
proof (intro conjI impI)
  assume a: "\<exists>t \<in> set pool. t \<in> get_allowed_tiles turn"
  then have ne: "pool \<noteq> []" by auto
  from a have f: "filter (\<lambda>t. t \<in> get_allowed_tiles turn) pool \<noteq> []"
    by (auto simp: filter_empty_conv)
  then have av: "available_tiles pool turn = filter (\<lambda>t. t \<in> get_allowed_tiles turn) pool"
    by (simp add: available_tiles_def)
  from draw_random_tile_from_available [OF ne, of turn rng]
  show "\<exists>tile rng'. draw_random_tile pool turn rng = Inr (tile, remove1 tile pool, rng') \<and>
         tile \<in> set pool \<and> tile \<in> get_allowed_tiles turn"
    unfolding av by auto
  show "\<forall>x \<in> set pool. x \<in> get_allowed_tiles turn \<longrightarrow>
         (\<exists>r. draw_random_tile pool turn r = Inr (x, remove1 x pool, []))"
    using draw_random_tile_reach [of _ pool turn] unfolding av by simp
next
  assume b: "pool \<noteq> [] \<and> (\<forall>t \<in> set pool. t \<notin> get_allowed_tiles turn)"
  then have av: "available_tiles pool turn = pool"
    by (simp add: available_tiles_def)
  from b draw_random_tile_from_available [of pool turn rng]
  show "\<exists>tile rng'. draw_random_tile pool turn rng = Inr (tile, remove1 tile pool, rng') \<and>
         tile \<in> set pool"
    unfolding av by auto
  show "\<forall>x \<in> set pool. \<exists>r. draw_random_tile pool turn r = Inr (x, remove1 x pool, [])"
    using draw_random_tile_reach [of _ pool turn] unfolding av by simp
next
  assume "pool = []"
  then show "draw_random_tile pool turn rng = Inl (ValueError ''No tiles left in pool!'')"
    by (simp add: draw_random_tile_available)
qed

lemma allowed1: "get_allowed_tiles 1 = {11, 19, 21, 29, 31, 39, 41, 42, 43, 44, 45, 46, 47}"
  by (auto simp: get_allowed_tiles_def Let_def terminals_def honors_def)

theorem draw_random_tile_cases_witness:
  "(\<exists>t \<in> set [15, 41, 19]. t \<in> get_allowed_tiles 1) \<and>
   draw_random_tile [15, 41, 19] 1 [1] = Inr (19, [15, 41], []) \<and>
   [15, 16] \<noteq> [] \<and> 15 \<notin> get_allowed_tiles 1 \<and> 16 \<notin> get_allowed_tiles 1 \<and>
   draw_random_tile [15, 16] 1 [3] = Inr (16, [15], []) \<and>
   draw_random_tile [] 1 [3] = Inl (ValueError ''No tiles left in pool!'')"
proof -
  have h1: "\<exists>t \<in> set [15, 41, 19]. t \<in> get_allowed_tiles 1"
    by (simp add: allowed1)
  have h2: "[15, 16] \<noteq> [] \<and> (\<forall>t \<in> set [15, 16]. t \<notin> get_allowed_tiles 1)"
    by (simp add: allowed1)
  have e1: "draw_random_tile [15, 41, 19] 1 [1] = Inr (19, [15, 41], [])"
    by code_simp
  have e2: "draw_random_tile [15, 16] 1 [3] = Inr (16, [15], [])"
    by code_simp
  from draw_random_tile_cases [of "[15, 41, 19]" 1 "[1]"] h1
  have c1: "\<exists>tile rng'. draw_random_tile [15, 41, 19] 1 [1] = Inr (tile, remove1 tile [15, 41, 19], rng') \<and>
         tile \<in> set [15, 41, 19] \<and> tile \<in> get_allowed_tiles 1"
    by blast
  from draw_random_tile_cases [of "[15, 16]" 1 "[3]"] h2
  have c2: "\<exists>tile rng'. draw_random_tile [15, 16] 1 [3] = Inr (tile, remove1 tile [15, 16], rng') \<and>
         tile \<in> set [15, 16]"
    by blast
  from draw_random_tile_cases [of "[]" 1 "[3]"]
  have c3: "draw_random_tile [] 1 [3] = Inl (ValueError ''No tiles left in pool!'')"
    by blast
  from h1 h2 e1 e2 c1 c2 c3 show ?thesis by simp
qed


section \<open>The hero's final action\<close>

lemma abs_to_pos_cases:
  assumes "h < 4"
  shows "(h = 0 \<and> map (abs_to_pos h) [0..<4] = map Some [HERO, SHIMO, TOIMEN, KAMI])
       \<or> (h = 1 \<and> map (abs_to_pos h) [0..<4] = map Some [KAMI, HERO, SHIMO, TOIMEN])
       \<or> (h = 2 \<and> map (abs_to_pos h) [0..<4] = map Some [TOIMEN, KAMI, HERO, SHIMO])
       \<or> (h = 3 \<and> map (abs_to_pos h) [0..<4] = map Some [SHIMO, TOIMEN, KAMI, HERO])"
proof -
  from assms have "h = 0 \<or> h = 1 \<or> h = 2 \<or> h = 3" by auto
  then show ?thesis
    by (elim disjE) (simp_all add: abs_to_pos_def upt_rec)
qed

lemma player_entry_other:
  assumes "pos_map i = Some pos" "pos \<noteq> HERO"
  shows "player_entry cfg cd h pos_map n cn i =
     Inr (replicate 13 (PInt 45), cd pos,
          build_other_player_discards cfg pos (if i \<le> h then n else n - 1))"
  using assms by (simp add: player_entry_def Let_def)

lemma player_entry_hero:
  assumes "pos_map i = Some HERO"
  shows "player_entry cfg cd h pos_map n cn i = hero_entry cfg (cd HERO) cn"
  using assms by (simp add: player_entry_def Let_def)

lemma build_player_data_hero:
  assumes idx: "list_index seats (HERO_SEAT cfg) = Inr h"
    and gd: "get_draws cfg rng0 = Inr cd"
    and cn: "hero_call_notation cfg = Inr cn"
    and he: "hero_entry cfg (cd HERO) cn = Inr (hand, draws, discards)"
  shows "\<exists>result. build_player_data cfg rng0 = Inr result \<and> length result = 12 \<and>
           result ! (3 * h) = hand \<and> result ! (3 * h + 1) = draws \<and>
           result ! (3 * h + 2) = discards"
proof -
  from idx have "h < 4" by (rule list_index_seats_lt)
  then have "h = 0 \<or> h = 1 \<or> h = 2 \<or> h = 3" by auto
  then show ?thesis
    using idx gd cn he
    by (elim disjE)
      (simp_all add: build_player_data_def Let_def upt_rec player_entry_def abs_to_pos_def)
qed


lemma set_last_butlast: "xs \<noteq> [] \<Longrightarrow> set_last xs v = Inr (butlast xs @ [v])"
proof -
  assume ne: "xs \<noteq> []"
  then have "xs = butlast xs @ [last xs]" by simp
  then have "xs[length xs - 1 := v] = (butlast xs @ [last xs])[length (butlast xs) := v]"
    by simp
  also have "\<dots> = butlast xs @ [v]" by (simp only: list_update_length)
  finally show ?thesis using ne by (simp add: set_last_def)
qed

lemma hero_entry_result:
  assumes "hd_draws \<noteq> []"
  shows "hero_entry cfg hd_draws cn =
     Inr (map PInt (HERO_HAND cfg),
          (if HERO_LAST_ACTION cfg = ''CHI'' \<or> HERO_LAST_ACTION cfg = ''PON''
           then butlast hd_draws @ [cn]
           else if HERO_LAST_ACTION cfg = ''KAN'' \<or> HERO_LAST_ACTION cfg = ''ANKAN''
           then butlast hd_draws @ [cn] @ [PInt (HERO_LAST_DRAW cfg)]
           else hd_draws),
          replicate (nat (HERO_LAST_DISCARD_TURN cfg - 1)) (PInt 60) @
            [if HERO_LAST_ACTION cfg = ''RIICHI''
             then PStr (''r'' @ str_int (HERO_LAST_DISCARD cfg))
             else PInt (HERO_LAST_DISCARD cfg)])"
  using assms by (simp add: hero_entry_def Let_def set_last_butlast)

lemma hero_call_notation_result:
  "\<exists>cn. hero_call_notation cfg = Inr cn \<and>
     (HERO_LAST_ACTION cfg \<in> {''CHI'', ''PON'', ''KAN'', ''ANKAN''} \<longrightarrow> (\<exists>s. cn = PStr s))"
  by (simp add: hero_call_notation_def generate_call_notation_def Let_def)

text \<open>
  Claim C7.  With a final-turn number of at least 1 and a hero draw record that is not
  empty: the hero's discards (entry \<open>3 * hero_idx + 2\<close> of the result) have the length of
  the final-turn number, every entry the filler 60 but the last, which is the hero's
  discard tile, tagged \<open>r\<close> exactly when the action is \<open>RIICHI\<close>; for \<open>CHI\<close> and \<open>PON\<close> the
  last draw is replaced by the call notation and the number of draws is unchanged; for
  \<open>KAN\<close> and \<open>ANKAN\<close> the last draw is replaced by the call notation and one draw, the
  hero's last draw tile, is appended; for every other action the draws are unchanged.
\<close>

theorem hero_final_action:
  assumes "hero_idx < 4" and "HERO_SEAT cfg = seats ! hero_idx"
    and "1 \<le> HERO_LAST_DISCARD_TURN cfg"
    and "get_draws cfg rng0 = Inr cd" and "cd HERO \<noteq> []"
  shows "\<exists>result cn. build_player_data cfg rng0 = Inr result \<and>
           hero_call_notation cfg = Inr cn \<and>
           length (result ! (3 * hero_idx + 2)) = nat (HERO_LAST_DISCARD_TURN cfg) \<and>
           (\<forall>i < nat (HERO_LAST_DISCARD_TURN cfg) - 1. result ! (3 * hero_idx + 2) ! i = PInt 60) \<and>
           result ! (3 * hero_idx + 2) ! (nat (HERO_LAST_DISCARD_TURN cfg) - 1) =
             (if HERO_LAST_ACTION cfg = ''RIICHI''
              then PStr (''r'' @ str_int (HERO_LAST_DISCARD cfg))
              else PInt (HERO_LAST_DISCARD cfg)) \<and>
           (HERO_LAST_ACTION cfg = ''CHI'' \<or> HERO_LAST_ACTION cfg = ''PON'' \<longrightarrow>
              (\<exists>s. cn = PStr s) \<and>
              result ! (3 * hero_idx + 1) = butlast (cd HERO) @ [cn] \<and>
              length (result ! (3 * hero_idx + 1)) = length (cd HERO)) \<and>
           (HERO_LAST_ACTION cfg = ''KAN'' \<or> HERO_LAST_ACTION cfg = ''ANKAN'' \<longrightarrow>
              (\<exists>s. cn = PStr s) \<and>
              result ! (3 * hero_idx + 1) =
                butlast (cd HERO) @ [cn] @ [PInt (HERO_LAST_DRAW cfg)] \<and>
              length (result ! (3 * hero_idx + 1)) = length (cd HERO) + 1) \<and>
           (HERO_LAST_ACTION cfg \<notin> {''CHI'', ''PON'', ''KAN'', ''ANKAN''} \<longrightarrow>
              result ! (3 * hero_idx + 1) = cd HERO)"
proof -
  from assms(1,2) have idx: "list_index seats (HERO_SEAT cfg) = Inr hero_idx"
    by (simp add: list_index_seats_nth)
  from hero_call_notation_result [of cfg] obtain cn where
    cn: "hero_call_notation cfg = Inr cn"
    and str: "HERO_LAST_ACTION cfg \<in> {''CHI'', ''PON'', ''KAN'', ''ANKAN''} \<longrightarrow> (\<exists>s. cn = PStr s)"
    by blast
  from build_player_data_hero [OF idx assms(4) cn hero_entry_result [OF assms(5)]]
  obtain result where r: "build_player_data cfg rng0 = Inr result"
    and dr: "result ! (3 * hero_idx + 1) =
          (if HERO_LAST_ACTION cfg = ''CHI'' \<or> HERO_LAST_ACTION cfg = ''PON''
           then butlast (cd HERO) @ [cn]
           else if HERO_LAST_ACTION cfg = ''KAN'' \<or> HERO_LAST_ACTION cfg = ''ANKAN''
           then butlast (cd HERO) @ [cn] @ [PInt (HERO_LAST_DRAW cfg)]
           else cd HERO)"
    and di: "result ! (3 * hero_idx + 2) =
          replicate (nat (HERO_LAST_DISCARD_TURN cfg - 1)) (PInt 60) @
            [if HERO_LAST_ACTION cfg = ''RIICHI''
             then PStr (''r'' @ str_int (HERO_LAST_DISCARD cfg))
             else PInt (HERO_LAST_DISCARD cfg)]"
    by blast
  have n1: "nat (HERO_LAST_DISCARD_TURN cfg) - 1 = nat (HERO_LAST_DISCARD_TURN cfg - 1)"
    by simp
  have len: "length (result ! (3 * hero_idx + 2)) = nat (HERO_LAST_DISCARD_TURN cfg)"
    using assms(3) unfolding di by simp
  have fill: "\<forall>i < nat (HERO_LAST_DISCARD_TURN cfg) - 1. result ! (3 * hero_idx + 2) ! i = PInt 60"
    unfolding di n1 by (simp add: nth_append)
  have lastd: "result ! (3 * hero_idx + 2) ! (nat (HERO_LAST_DISCARD_TURN cfg) - 1) =
             (if HERO_LAST_ACTION cfg = ''RIICHI''
              then PStr (''r'' @ str_int (HERO_LAST_DISCARD cfg))
              else PInt (HERO_LAST_DISCARD cfg))"
    unfolding di n1 by (simp add: nth_append)
  have lb: "length (butlast (cd HERO)) + 1 = length (cd HERO)"
    using assms(5) by simp
  have draws: "(HERO_LAST_ACTION cfg = ''CHI'' \<or> HERO_LAST_ACTION cfg = ''PON'' \<longrightarrow>
              (\<exists>s. cn = PStr s) \<and>
              result ! (3 * hero_idx + 1) = butlast (cd HERO) @ [cn] \<and>
              length (result ! (3 * hero_idx + 1)) = length (cd HERO)) \<and>
           (HERO_LAST_ACTION cfg = ''KAN'' \<or> HERO_LAST_ACTION cfg = ''ANKAN'' \<longrightarrow>
              (\<exists>s. cn = PStr s) \<and>
              result ! (3 * hero_idx + 1) =
                butlast (cd HERO) @ [cn] @ [PInt (HERO_LAST_DRAW cfg)] \<and>
              length (result ! (3 * hero_idx + 1)) = length (cd HERO) + 1) \<and>
           (HERO_LAST_ACTION cfg \<notin> {''CHI'', ''PON'', ''KAN'', ''ANKAN''} \<longrightarrow>
              result ! (3 * hero_idx + 1) = cd HERO)"
    using str lb unfolding dr by auto
  from r cn len fill lastd draws show ?thesis by blast
qed


theorem hero_final_action_witness:
  "(3::nat) < 4 \<and> HERO_SEAT kan_config = seats ! 3 \<and> 1 \<le> HERO_LAST_DISCARD_TURN kan_config \<and>
   get_draws kan_config [] = Inr (DRAWS kan_config) \<and> DRAWS kan_config HERO \<noteq> [] \<and>
   (\<exists>result. build_player_data kan_config [] = Inr result \<and>
      result ! 10 = [PInt 11, PStr ''m32323232'', PInt 32] \<and>
      result ! 11 = [PInt 60, PInt 31])"
proof -
  have h1: "(3::nat) < 4" by simp
  have h2: "HERO_SEAT kan_config = seats ! 3"
    by (simp add: kan_config_def default_config_def seats_def)
  have h3: "1 \<le> HERO_LAST_DISCARD_TURN kan_config"
    by (simp add: kan_config_def)
  have h4: "get_draws kan_config [] = Inr (DRAWS kan_config)"
    by (simp add: get_draws_def kan_config_def)
  have h5: "DRAWS kan_config HERO \<noteq> []"
    by (simp add: kan_config_def)
  have cn: "hero_call_notation kan_config = Inr (PStr ''m32323232'')"
    by (simp add: hero_call_notation_def generate_call_notation_def kan_config_def
        default_config_def str_int_def str_nat.simps digit_char_def)
  have v: "HERO_LAST_ACTION kan_config = ''KAN''" "HERO_LAST_DRAW kan_config = 32"
    "HERO_LAST_DISCARD kan_config = 31" "HERO_LAST_DISCARD_TURN kan_config = 2"
    "DRAWS kan_config HERO = [PInt 11, PInt 32]"
    by (simp_all add: kan_config_def default_config_def)
  from hero_final_action [OF h1 h2 h3 h4 h5] obtain result cn' where
    r: "build_player_data kan_config [] = Inr result"
    and c: "hero_call_notation kan_config = Inr cn'"
    and len: "length (result ! (3 * 3 + 2)) = nat (HERO_LAST_DISCARD_TURN kan_config)"
    and fill: "\<forall>i < nat (HERO_LAST_DISCARD_TURN kan_config) - 1. result ! (3 * 3 + 2) ! i = PInt 60"
    and lst: "result ! (3 * 3 + 2) ! (nat (HERO_LAST_DISCARD_TURN kan_config) - 1) =
             (if HERO_LAST_ACTION kan_config = ''RIICHI''
              then PStr (''r'' @ str_int (HERO_LAST_DISCARD kan_config))
              else PInt (HERO_LAST_DISCARD kan_config))"
    and kan: "HERO_LAST_ACTION kan_config = ''KAN'' \<or> HERO_LAST_ACTION kan_config = ''ANKAN'' \<longrightarrow>
              result ! (3 * 3 + 1) =
                butlast (DRAWS kan_config HERO) @ [cn'] @ [PInt (HERO_LAST_DRAW kan_config)]"
    by blast
  from c cn have cn': "cn' = PStr ''m32323232''" by simp
  from kan have d: "result ! 10 = [PInt 11, PStr ''m32323232'', PInt 32]"
    unfolding v cn' by simp
  from len have l2: "length (result ! 11) = 2" unfolding v by simp
  from fill have e0: "result ! 11 ! 0 = PInt 60" unfolding v by simp
  from lst have e1: "result ! 11 ! 1 = PInt 31" unfolding v by simp
  from l2 have "result ! 11 = [result ! 11 ! 0, result ! 11 ! 1]"
    by (cases "result ! 11"; cases "tl (result ! 11)") auto
  with e0 e1 have "result ! 11 = [PInt 60, PInt 31]" by simp
  with r d h1 h2 h3 h4 h5 show ?thesis by blast
qed


section \<open>The draw generator\<close>

subsection \<open>One draw opportunity, one round, all rounds\<close>

lemma draw_random_tile_Inr:
  assumes "draw_random_tile pool turn rng = Inr (tile, pool', rng')"
  shows "tile \<in> set pool \<and> pool' = remove1 tile pool"
  using assms
  by (auto simp: draw_random_tile_available split: if_splits sum.splits prod.splits)

lemma all_draws_upd:
  "mset (all_draws (d(pos := d pos @ [v]))) = add_mset v (mset (all_draws d))"
  by (cases pos) (simp_all add: all_draws_def)

lemma draw_step_effect:
  assumes "draw_step cfg n a2p i st = Inr st'" and "a2p i = Some pos"
  shows "st_player_turns st' = (st_player_turns st)(pos := st_player_turns st pos + 1)"
    and "\<exists>v. st_draws st' = (st_draws st)(pos := st_draws st pos @ [v]) \<and>
           (if pos = HERO \<and> st_player_turns st pos + 1 = n
            then v = PInt (HERO_LAST_DRAW cfg) \<and> st_pool st' = st_pool st
            else \<exists>tile. v = PInt tile \<and> tile \<in> set (st_pool st) \<and>
                   st_pool st' = remove1 tile (st_pool st))"
proof -
  show "st_player_turns st' = (st_player_turns st)(pos := st_player_turns st pos + 1)"
    using assms
    by (auto simp: draw_step_def Let_def split: if_splits sum.splits prod.splits)
  show "\<exists>v. st_draws st' = (st_draws st)(pos := st_draws st pos @ [v]) \<and>
           (if pos = HERO \<and> st_player_turns st pos + 1 = n
            then v = PInt (HERO_LAST_DRAW cfg) \<and> st_pool st' = st_pool st
            else \<exists>tile. v = PInt tile \<and> tile \<in> set (st_pool st) \<and>
                   st_pool st' = remove1 tile (st_pool st))"
  proof (cases "pos = HERO \<and> st_player_turns st pos + 1 = n")
    case True
    with assms show ?thesis
      by (auto simp: draw_step_def Let_def)
  next
    case False
    with assms obtain tile pool' rng' where
      d: "draw_random_tile (st_pool st) (st_player_turns st pos + 1) (st_rng st) = Inr (tile, pool', rng')"
      and s: "st' = st\<lparr>st_player_turns := (st_player_turns st)(pos := st_player_turns st pos + 1),
                 st_pool := pool', st_rng := rng',
                 st_draws := (st_draws st)(pos := st_draws st pos @ [PInt tile])\<rparr>"
      by (auto simp: draw_step_def Let_def split: if_splits sum.splits prod.splits)
    from draw_random_tile_Inr [OF d] s False show ?thesis by auto
  qed
qed

text \<open>The balance of a state: what the draw records and the pool hold together.\<close>

lemma draw_step_balance:
  assumes "draw_step cfg n a2p i st = Inr st'" and "a2p i = Some pos"
  shows "mset (all_draws (st_draws st')) + mset (map PInt (st_pool st')) =
         mset (all_draws (st_draws st)) + mset (map PInt (st_pool st)) +
           (if pos = HERO \<and> st_player_turns st pos + 1 = n
            then {#PInt (HERO_LAST_DRAW cfg)#} else {#})"
proof -
  from draw_step_effect(2) [OF assms] obtain v where
    d: "st_draws st' = (st_draws st)(pos := st_draws st pos @ [v])"
    and c: "if pos = HERO \<and> st_player_turns st pos + 1 = n
            then v = PInt (HERO_LAST_DRAW cfg) \<and> st_pool st' = st_pool st
            else \<exists>tile. v = PInt tile \<and> tile \<in> set (st_pool st) \<and>
                   st_pool st' = remove1 tile (st_pool st)"
    by blast
  show ?thesis
  proof (cases "pos = HERO \<and> st_player_turns st pos + 1 = n")
    case True
    then have p: "pos = HERO" and tn: "st_player_turns st HERO + 1 = n" by auto
    from c p tn have "v = PInt (HERO_LAST_DRAW cfg)" "st_pool st' = st_pool st"
      by simp_all
    with p tn d show ?thesis by (simp add: all_draws_upd)
  next
    case False
    with c obtain tile where t: "v = PInt tile" "tile \<in> set (st_pool st)"
      "st_pool st' = remove1 tile (st_pool st)" by (auto split: if_splits)
    from t(2) have "mset (st_pool st) = add_mset tile (mset (remove1 tile (st_pool st)))"
      by simp
    then have "mset (map PInt (st_pool st)) =
        add_mset (PInt tile) (mset (map PInt (remove1 tile (st_pool st))))"
      by (metis image_mset_add_mset mset_map)
    with False d t show ?thesis by (simp add: all_draws_upd)
  qed
qed

lemma seat_loop_effect:
  assumes "seat_loop cfg n a2p idxs st = Inr st'"
    and "map a2p idxs = map Some poss" and "distinct poss"
  shows "(\<forall>q. st_player_turns st' q = st_player_turns st q + (if q \<in> set poss then 1 else 0))
       \<and> (\<forall>q. length (st_draws st' q) = length (st_draws st q) + (if q \<in> set poss then 1 else 0))
       \<and> mset (all_draws (st_draws st')) + mset (map PInt (st_pool st')) =
           mset (all_draws (st_draws st)) + mset (map PInt (st_pool st)) +
             (if HERO \<in> set poss \<and> st_player_turns st HERO + 1 = n
              then {#PInt (HERO_LAST_DRAW cfg)#} else {#})"
  using assms
proof (induction idxs arbitrary: st poss)
  case Nil
  then show ?case by simp
next
  case (Cons i idxs)
  from Cons.prems(2) obtain p ps where
    poss: "poss = p # ps" and ai: "a2p i = Some p" and rest: "map a2p idxs = map Some ps"
    by (cases poss) auto
  from Cons.prems(1) obtain st1 where
    s1: "draw_step cfg n a2p i st = Inr st1" and s2: "seat_loop cfg n a2p idxs st1 = Inr st'"
    by (auto split: sum.splits)
  from Cons.prems(3) poss have dist: "distinct ps" and pn: "p \<notin> set ps" by auto
  note ih = Cons.IH [OF s2 rest dist]
  note t1 = draw_step_effect(1) [OF s1 ai]
  from draw_step_effect(2) [OF s1 ai] have
    l1: "\<forall>q. length (st_draws st1 q) = length (st_draws st q) + (if q = p then 1 else 0)"
    by auto
  note b1 = draw_step_balance [OF s1 ai]
  have turns: "\<forall>q. st_player_turns st' q = st_player_turns st q + (if q \<in> set poss then 1 else 0)"
    using ih t1 pn poss by auto
  have lens: "\<forall>q. length (st_draws st' q) = length (st_draws st q) + (if q \<in> set poss then 1 else 0)"
    using ih l1 pn poss by auto
  have bal: "mset (all_draws (st_draws st')) + mset (map PInt (st_pool st')) =
           mset (all_draws (st_draws st)) + mset (map PInt (st_pool st)) +
             (if HERO \<in> set poss \<and> st_player_turns st HERO + 1 = n
              then {#PInt (HERO_LAST_DRAW cfg)#} else {#})"
  proof (cases "p = HERO")
    case True
    with pn have "HERO \<notin> set ps" by simp
    with ih b1 True poss show ?thesis by simp
  next
    case False
    with t1 have "st_player_turns st1 HERO = st_player_turns st HERO" by simp
    with ih b1 False poss show ?thesis by simp
  qed
  from turns lens bal show ?case by blast
qed


lemma round_effect:
  assumes "seat_loop cfg n (abs_to_pos h) [0..<4] st = Inr st'" and "h < 4"
  shows "(\<forall>q. st_player_turns st' q = st_player_turns st q + 1)
       \<and> (\<forall>q. length (st_draws st' q) = length (st_draws st q) + 1)
       \<and> mset (all_draws (st_draws st')) + mset (map PInt (st_pool st')) =
           mset (all_draws (st_draws st)) + mset (map PInt (st_pool st)) +
             (if st_player_turns st HERO + 1 = n
              then {#PInt (HERO_LAST_DRAW cfg)#} else {#})"
proof -
  from abs_to_pos_cases [OF assms(2)] obtain poss where
    m: "map (abs_to_pos h) [0..<4] = map Some poss"
    and d: "distinct poss" and u: "set poss = {HERO, SHIMO, TOIMEN, KAMI}"
    by (elim disjE conjE) fastforce+
  have all: "q \<in> set poss" for q unfolding u by (cases q) simp_all
  from seat_loop_effect [OF assms(1) m d] show ?thesis by (simp add: all)
qed

lemma round_loop_effect:
  assumes "round_loop cfg n (abs_to_pos h) rs st = Inr st'" and "h < 4"
    and "\<forall>q. st_player_turns st q = k"
  shows "(\<forall>q. st_player_turns st' q = k + int (length rs))
       \<and> (\<forall>q. length (st_draws st' q) = length (st_draws st q) + length rs)
       \<and> mset (all_draws (st_draws st')) + mset (map PInt (st_pool st')) =
           mset (all_draws (st_draws st)) + mset (map PInt (st_pool st)) +
             (if k < n \<and> n \<le> k + int (length rs)
              then {#PInt (HERO_LAST_DRAW cfg)#} else {#})"
  using assms
proof (induction rs arbitrary: st k)
  case Nil
  then show ?case by simp
next
  case (Cons r rs)
  from Cons.prems(1) obtain st1 where
    s1: "seat_loop cfg n (abs_to_pos h) [0..<4] st = Inr st1"
    and s2: "round_loop cfg n (abs_to_pos h) rs st1 = Inr st'"
    by (auto split: sum.splits)
  note e1 = round_effect [OF s1 Cons.prems(2)]
  from e1 Cons.prems(3) have k1: "\<forall>q. st_player_turns st1 q = k + 1" by simp
  note ih = Cons.IH [OF s2 Cons.prems(2) k1]
  from Cons.prems(3) have kh: "st_player_turns st HERO = k" by simp
  have turns: "\<forall>q. st_player_turns st' q = k + int (length (r # rs))"
    using ih by simp
  have lens: "\<forall>q. length (st_draws st' q) = length (st_draws st q) + length (r # rs)"
    using ih e1 by simp
  have bal: "mset (all_draws (st_draws st')) + mset (map PInt (st_pool st')) =
           mset (all_draws (st_draws st)) + mset (map PInt (st_pool st)) +
             (if k < n \<and> n \<le> k + int (length (r # rs))
              then {#PInt (HERO_LAST_DRAW cfg)#} else {#})"
  proof -
    have "mset (all_draws (st_draws st')) + mset (map PInt (st_pool st')) =
           mset (all_draws (st_draws st)) + mset (map PInt (st_pool st)) +
             (if k + 1 = n then {#PInt (HERO_LAST_DRAW cfg)#} else {#}) +
             (if k + 1 < n \<and> n \<le> k + 1 + int (length rs)
              then {#PInt (HERO_LAST_DRAW cfg)#} else {#})"
      using ih e1 kh by simp
    moreover have "(if k + 1 = n then {#PInt (HERO_LAST_DRAW cfg)#} else {#}) +
             (if k + 1 < n \<and> n \<le> k + 1 + int (length rs)
              then {#PInt (HERO_LAST_DRAW cfg)#} else {#}) =
             (if k < n \<and> n \<le> k + int (length (r # rs))
              then {#PInt (HERO_LAST_DRAW cfg)#} else {#})"
      by auto
    ultimately show ?thesis by (simp add: add.assoc)
  qed
  from turns lens bal show ?case by blast
qed

lemma simulate_draws_effect:
  assumes "simulate_draws cfg rng0 = Inr st"
  shows "length (st_draws st HERO) = nat (HERO_LAST_DISCARD_TURN cfg)"
    and "length (st_draws st SHIMO) = nat (HERO_LAST_DISCARD_TURN cfg) + 1"
    and "length (st_draws st TOIMEN) = nat (HERO_LAST_DISCARD_TURN cfg)"
    and "length (st_draws st KAMI) = nat (HERO_LAST_DISCARD_TURN cfg)"
    and "mset (all_draws (st_draws st)) + mset (map PInt (st_pool st)) =
           mset (map PInt (build_pool cfg)) +
             (if 1 \<le> HERO_LAST_DISCARD_TURN cfg then {#PInt (HERO_LAST_DRAW cfg)#} else {#}) +
             {#PInt 45#}"
    and "last (st_draws st SHIMO) = PInt 45"
proof -
  define n where "n = HERO_LAST_DISCARD_TURN cfg"
  define st0 where "st0 = \<lparr>st_pool = build_pool cfg, st_draws = (\<lambda>pos. []),
                      st_player_turns = (\<lambda>pos. 0), st_rng = rng0\<rparr>"
  from assms obtain h st1 where
    idx: "list_index seats (HERO_SEAT cfg) = Inr h"
    and rl: "round_loop cfg n (abs_to_pos h) [0..<nat n] st0 = Inr st1"
    and st: "st = st1\<lparr>st_draws := (st_draws st1)(SHIMO := st_draws st1 SHIMO @ [PInt 45])\<rparr>"
    by (auto simp: simulate_draws_def Let_def n_def st0_def split: sum.splits)
  from idx have h4: "h < 4" by (rule list_index_seats_lt)
  have t0: "\<forall>q. st_player_turns st0 q = 0" by (simp add: st0_def)
  note e = round_loop_effect [OF rl h4 t0]
  from e have len: "length (st_draws st1 q) = nat n" for q
    by (simp add: st0_def)
  show "length (st_draws st HERO) = nat (HERO_LAST_DISCARD_TURN cfg)"
    "length (st_draws st SHIMO) = nat (HERO_LAST_DISCARD_TURN cfg) + 1"
    "length (st_draws st TOIMEN) = nat (HERO_LAST_DISCARD_TURN cfg)"
    "length (st_draws st KAMI) = nat (HERO_LAST_DISCARD_TURN cfg)"
    using len by (simp_all add: st n_def)
  show "last (st_draws st SHIMO) = PInt 45"
    by (simp add: st)
  have c: "(0 < n \<and> n \<le> 0 + int (length [0..<nat n])) = (1 \<le> n)" by auto
  from e have "mset (all_draws (st_draws st1)) + mset (map PInt (st_pool st1)) =
      mset (map PInt (build_pool cfg)) +
        (if 1 \<le> n then {#PInt (HERO_LAST_DRAW cfg)#} else {#})"
    unfolding c by (simp add: st0_def all_draws_def)
  moreover have "mset (all_draws (st_draws st)) = add_mset (PInt 45) (mset (all_draws (st_draws st1)))"
    unfolding st by (simp add: all_draws_upd)
  moreover have "st_pool st = st_pool st1" by (simp add: st)
  ultimately show "mset (all_draws (st_draws st)) + mset (map PInt (st_pool st)) =
           mset (map PInt (build_pool cfg)) +
             (if 1 \<le> HERO_LAST_DISCARD_TURN cfg then {#PInt (HERO_LAST_DRAW cfg)#} else {#}) +
             {#PInt 45#}"
    by (simp add: n_def)
qed

lemma mset_remove_tiles: "mset (remove_tiles ts pool) = mset pool - mset ts"
proof (induction ts arbitrary: pool)
  case Nil
  then show ?case by simp
next
  case (Cons t ts)
  have "mset (if t \<in> set pool then remove1 t pool else pool) = mset pool - {#t#}"
    by simp
  with Cons.IH show ?case by simp
qed

lemma mset_build_pool:
  "mset (build_pool cfg) =
     mset (full_pool cfg) - mset (HERO_HAND cfg) - {#HERO_LAST_DRAW cfg#} - mset (DORA_INDICATOR cfg)"
proof -
  have "mset (if x \<in> set p then remove1 x p else p) = mset p - {#x#}" for x :: int and p
    by simp
  then show ?thesis
    by (simp add: build_pool_def full_pool_def Let_def mset_remove_tiles)
qed


subsection \<open>The generation succeeds while the pool lasts\<close>

lemma length_remove1_le: "length xs \<le> length (remove1 x xs) + 1"
  by (induction xs) auto

lemma length_remove1_mem: "x \<in> set xs \<Longrightarrow> length (remove1 x xs) + 1 = length xs"
  by (induction xs) auto

lemma draw_step_succeeds:
  assumes "a2p i = Some pos" and "st_pool st \<noteq> []"
  shows "\<exists>st'. draw_step cfg n a2p i st = Inr st' \<and>
           length (st_pool st) \<le> length (st_pool st') + 1"
proof (cases "pos = HERO \<and> st_player_turns st pos + 1 = n")
  case True
  then have p: "pos = HERO" and tn: "st_player_turns st HERO + 1 = n" by auto
  from assms(1) p tn show ?thesis by (simp add: draw_step_def Let_def)
next
  case False
  from draw_random_tile_from_available [OF assms(2), of "st_player_turns st pos + 1" "st_rng st"]
  obtain tile rng' where
    d: "draw_random_tile (st_pool st) (st_player_turns st pos + 1) (st_rng st) =
          Inr (tile, remove1 tile (st_pool st), rng')"
    by blast
  have "length (st_pool st) \<le> length (remove1 tile (st_pool st)) + 1"
    by (rule length_remove1_le)
  with False assms(1) d show ?thesis
    by (auto simp: draw_step_def Let_def)
qed

lemma seat_loop_succeeds:
  assumes "map a2p idxs = map Some poss" and "length idxs \<le> length (st_pool st)"
  shows "\<exists>st'. seat_loop cfg n a2p idxs st = Inr st' \<and>
           length (st_pool st) \<le> length (st_pool st') + length idxs"
  using assms
proof (induction idxs arbitrary: st poss)
  case Nil
  then show ?case by simp
next
  case (Cons i idxs)
  from Cons.prems(1) obtain p ps where
    ai: "a2p i = Some p" and rest: "map a2p idxs = map Some ps"
    by (cases poss) auto
  from Cons.prems(2) have ne: "st_pool st \<noteq> []" by auto
  from draw_step_succeeds [where cfg = cfg and n = n and ?a2p = a2p and i = i and st = st, OF ai ne]
  obtain st1 where
    s1: "draw_step cfg n a2p i st = Inr st1"
    and l1: "length (st_pool st) \<le> length (st_pool st1) + 1"
    by blast
  from l1 Cons.prems(2) have "length idxs \<le> length (st_pool st1)" by simp
  from Cons.IH [OF rest this] obtain st' where
    s2: "seat_loop cfg n a2p idxs st1 = Inr st'"
    and l2: "length (st_pool st1) \<le> length (st_pool st') + length idxs"
    by blast
  from s1 s2 l1 l2 show ?case by simp
qed

lemma round_loop_succeeds:
  assumes "h < 4" and "4 * length rs \<le> length (st_pool st)"
  shows "\<exists>st'. round_loop cfg n (abs_to_pos h) rs st = Inr st'"
  using assms(2)
proof (induction rs arbitrary: st)
  case Nil
  then show ?case by simp
next
  case (Cons r rs)
  from abs_to_pos_cases [OF assms(1)] obtain poss where
    m: "map (abs_to_pos h) [0..<4] = map Some poss"
    by (elim disjE conjE) blast+
  from Cons.prems have "length [0..<4::nat] \<le> length (st_pool st)" by simp
  from seat_loop_succeeds [where cfg = cfg and n = n, OF m this] obtain st1 where
    s1: "seat_loop cfg n (abs_to_pos h) [0..<4] st = Inr st1"
    and l1: "length (st_pool st) \<le> length (st_pool st1) + length [0..<4::nat]"
    by blast
  from l1 Cons.prems have "4 * length rs \<le> length (st_pool st1)" by simp
  from Cons.IH [OF this] s1 show ?case by simp
qed

lemma simulate_draws_succeeds:
  assumes "HERO_SEAT cfg \<in> set seats"
    and "4 * nat (HERO_LAST_DISCARD_TURN cfg) \<le> length (build_pool cfg)"
  shows "\<exists>st. simulate_draws cfg rng0 = Inr st"
proof -
  from list_index_seats_mem [OF assms(1)] obtain h where
    idx: "list_index seats (HERO_SEAT cfg) = Inr h" ..
  then have h4: "h < 4" by (rule list_index_seats_lt)
  from assms(2) round_loop_succeeds [OF h4, of "[0..<nat (HERO_LAST_DISCARD_TURN cfg)]"
      "\<lparr>st_pool = build_pool cfg, st_draws = (\<lambda>pos. []),
        st_player_turns = (\<lambda>pos. 0), st_rng = rng0\<rparr>" cfg "HERO_LAST_DISCARD_TURN cfg"]
  obtain st1 where "round_loop cfg (HERO_LAST_DISCARD_TURN cfg) (abs_to_pos h)
      [0..<nat (HERO_LAST_DISCARD_TURN cfg)]
      \<lparr>st_pool = build_pool cfg, st_draws = (\<lambda>pos. []),
        st_player_turns = (\<lambda>pos. 0), st_rng = rng0\<rparr> = Inr st1"
    by auto
  with idx show ?thesis by (simp add: simulate_draws_def Let_def)
qed

lemma build_pool_default: "length (build_pool default_config) = 121"
  by code_simp

subsection \<open>Pool accounting\<close>

text \<open>
  Claim C6.  Every successful draw returns a tile of the pool and removes one occurrence
  of it, so the pool shrinks by exactly one.  The pool at the start of the drawing is the
  full pool less one occurrence of each hero-hand tile, of the hero's last draw and of
  each dora indicator.  After the generation, the draw records less the hero's fixed last
  draw and the forced winning tile 45, together with the remaining pool, are exactly that
  starting pool: the \<open>4 * N - 1\<close> drawn tiles are tiles of it, none a deducted copy, and
  the pool has shrunk by \<open>4 * N - 1\<close>.
\<close>

theorem draws_deplete_pool:
  assumes "simulate_draws cfg rng0 = Inr st" and "1 \<le> HERO_LAST_DISCARD_TURN cfg"
  shows "(\<forall>pool turn rng tile pool' rng'.
            draw_random_tile pool turn rng = Inr (tile, pool', rng') \<longrightarrow>
              tile \<in> set pool \<and> pool' = remove1 tile pool \<and> length pool' + 1 = length pool)
       \<and> mset (build_pool cfg) =
           mset (full_pool cfg) - mset (HERO_HAND cfg) - {#HERO_LAST_DRAW cfg#}
             - mset (DORA_INDICATOR cfg)
       \<and> mset (all_draws (st_draws st)) + mset (map PInt (st_pool st)) =
           mset (map PInt (build_pool cfg)) + {#PInt (HERO_LAST_DRAW cfg), PInt 45#}
       \<and> length (st_pool st) + (4 * nat (HERO_LAST_DISCARD_TURN cfg) - 1) =
           length (build_pool cfg)
       \<and> mset (all_draws (st_draws st)) - {#PInt (HERO_LAST_DRAW cfg), PInt 45#} \<subseteq>#
           image_mset PInt
             (mset (full_pool cfg) - mset (HERO_HAND cfg) - {#HERO_LAST_DRAW cfg#}
                - mset (DORA_INDICATOR cfg))"
proof -
  have one: "\<forall>pool turn rng tile pool' rng'.
            draw_random_tile pool turn rng = Inr (tile, pool', rng') \<longrightarrow>
              tile \<in> set pool \<and> pool' = remove1 tile pool \<and> length pool' + 1 = length pool"
  proof (intro allI impI)
    fix pool turn rng tile pool' rng'
    assume "draw_random_tile pool turn rng = Inr (tile, pool', rng')"
    from draw_random_tile_Inr [OF this]
    show "tile \<in> set pool \<and> pool' = remove1 tile pool \<and> length pool' + 1 = length pool"
      using length_remove1_mem [of tile pool] by auto
  qed
  note e = simulate_draws_effect [OF assms(1)]
  from e(5) assms(2) have bal: "mset (all_draws (st_draws st)) + mset (map PInt (st_pool st)) =
           mset (map PInt (build_pool cfg)) + {#PInt (HERO_LAST_DRAW cfg), PInt 45#}"
    by simp
  have "length (all_draws (st_draws st)) = 4 * nat (HERO_LAST_DISCARD_TURN cfg) + 1"
    using e(1-4) by (simp add: all_draws_def)
  moreover from bal have "size (mset (all_draws (st_draws st)) + mset (map PInt (st_pool st))) =
      size (mset (map PInt (build_pool cfg)) + {#PInt (HERO_LAST_DRAW cfg), PInt 45#})"
    by simp
  then have "length (all_draws (st_draws st)) + length (st_pool st) = length (build_pool cfg) + 2"
    by simp
  ultimately have len: "length (st_pool st) + (4 * nat (HERO_LAST_DISCARD_TURN cfg) - 1) =
           length (build_pool cfg)"
    using assms(2) by simp
  from bal have "mset (all_draws (st_draws st)) - {#PInt (HERO_LAST_DRAW cfg), PInt 45#} \<subseteq>#
      mset (map PInt (build_pool cfg))"
    by (metis add.commute subset_eq_diff_conv mset_subset_eq_add_left)
  then have sub: "mset (all_draws (st_draws st)) - {#PInt (HERO_LAST_DRAW cfg), PInt 45#} \<subseteq>#
           image_mset PInt
             (mset (full_pool cfg) - mset (HERO_HAND cfg) - {#HERO_LAST_DRAW cfg#}
                - mset (DORA_INDICATOR cfg))"
    by (simp add: mset_build_pool)
  from one mset_build_pool [of cfg] bal len sub show ?thesis by blast
qed

theorem draws_deplete_pool_witness:
  "1 \<le> HERO_LAST_DISCARD_TURN default_config \<and>
   (\<exists>st. simulate_draws default_config [7, 0, 3] = Inr st \<and>
      length (st_pool st) + 31 = length (build_pool default_config)) \<and>
   length (build_pool default_config) = 121"
proof -
  have n: "HERO_LAST_DISCARD_TURN default_config = 8" by (simp add: default_config_def)
  have "HERO_SEAT default_config \<in> set seats" by (simp add: default_config_def seats_def)
  from simulate_draws_succeeds [OF this, of "[7, 0, 3]"] obtain st where
    st: "simulate_draws default_config [7, 0, 3] = Inr st"
    unfolding n build_pool_default by auto
  have h: "1 \<le> HERO_LAST_DISCARD_TURN default_config" by (simp add: n)
  from draws_deplete_pool [OF st h]
  have "length (st_pool st) + 31 = length (build_pool default_config)"
    unfolding n by simp
  with st h build_pool_default show ?thesis by blast
qed

subsection \<open>Draw counts\<close>

text \<open>
  Claim C1 against the code.  Whatever the hero's seat, the generator runs \<open>N\<close> full
  rounds: every relative position receives \<open>N\<close> draws, and the forced winning draw is
  appended to the record of \<open>SHIMO\<close> only.  A position seated after the hero therefore
  receives \<open>N\<close> draws and not \<open>N - 1\<close>, while \<open>build_player_data\<close> gives it \<open>N - 1\<close>
  discards.
\<close>

theorem generated_draw_counts:
  assumes "generate_random_draws cfg rng0 = Inr d"
  shows "length (d HERO) = nat (HERO_LAST_DISCARD_TURN cfg)
       \<and> length (d SHIMO) = nat (HERO_LAST_DISCARD_TURN cfg) + 1
       \<and> length (d TOIMEN) = nat (HERO_LAST_DISCARD_TURN cfg)
       \<and> length (d KAMI) = nat (HERO_LAST_DISCARD_TURN cfg)
       \<and> last (d SHIMO) = PInt 45"
proof -
  from assms obtain st where "simulate_draws cfg rng0 = Inr st" and "d = st_draws st"
    by (auto simp: generate_random_draws_def split: sum.splits)
  with simulate_draws_effect(1-4,6) [of cfg rng0 st] show ?thesis by simp
qed

lemma east_eval:
  "(case generate_random_draws east_config [] of
      Inl e \<Rightarrow> None
    | Inr d \<Rightarrow> Some (map d [HERO, SHIMO, TOIMEN, KAMI])) =
   Some [[PInt 11, PInt 32], [PInt 11, PInt 19, PInt 45], [PInt 11, PInt 19], [PInt 11, PInt 19]]"
  by code_simp

lemma east_data:
  "build_player_data east_config [] =
   Inr [map PInt [13, 14, 17, 18, 19, 25, 26, 27, 28, 28, 31, 31, 33],
        [PInt 11, PInt 32], [PInt 60, PStr ''r31''],
        replicate 13 (PInt 45), [PInt 11, PInt 19, PInt 45], [PInt 60],
        replicate 13 (PInt 45), [PInt 11, PInt 19], [PInt 60],
        replicate 13 (PInt 45), [PInt 11, PInt 19], [PInt 60]]"
  by code_simp

theorem generated_draw_counts_witness:
  "\<exists>d. generate_random_draws east_config [] = Inr d \<and>
     d TOIMEN = [PInt 11, PInt 19] \<and> d KAMI = [PInt 11, PInt 19] \<and>
     length (d TOIMEN) = nat (HERO_LAST_DISCARD_TURN east_config) \<and>
     length (d KAMI) = nat (HERO_LAST_DISCARD_TURN east_config) \<and>
     HERO_LAST_DISCARD_TURN east_config = 2 \<and> HERO_SEAT east_config = ''EAST''"
proof -
  from east_eval obtain d where
    d: "generate_random_draws east_config [] = Inr d"
    and m: "map d [HERO, SHIMO, TOIMEN, KAMI] =
      [[PInt 11, PInt 32], [PInt 11, PInt 19, PInt 45], [PInt 11, PInt 19], [PInt 11, PInt 19]]"
    by (auto split: sum.splits)
  from generated_draw_counts [OF d] m d show ?thesis
    by (auto simp: east_config_def)
qed


end
